theory Spec2Isabelle
  imports Complex_Main
begin

section \<open>Resilience layer of the PA API client: rate limiter, circuit breaker, cache\<close>

text \<open>
  The three classes of \<^verbatim>\<open>core/rate_limiter.py\<close>, \<^verbatim>\<open>core/circuit_breaker.py\<close> and
  \<^verbatim>\<open>core/cache_manager.py\<close> are embedded as records with explicit state passing.

  Conventions of the embedding:
  \<^item> \<^verbatim>\<open>datetime.now()\<close> is an input of every operation that reads the clock: a
    timestamp in seconds, of type \<open>real\<close>. Nothing forces the timestamps of
    successive calls to increase; where a property needs that, it is a hypothesis.
  \<^item> Python's \<^verbatim>\<open>float\<close> arithmetic on tokens and durations is idealised as exact
    arithmetic on \<open>real\<close>; rounding is not modelled. The code computes in double
    precision, so at a rounding boundary (a refill that ends within a rounding error of
    a whole token) it can admit a call that exact arithmetic rejects, or the reverse.
  \<^item> Python's \<^verbatim>\<open>int\<close> is \<open>int\<close>.
  \<^item> The \<^verbatim>\<open>asyncio.Lock\<close> of the rate limiter serialises the body of
    \<^verbatim>\<open>acquire\<close>; the embedding is the sequential body. Logging is dropped.
\<close>

subsection \<open>\<^verbatim>\<open>core/circuit_breaker.py\<close>\<close>

datatype CircuitState = CLOSED | OPEN | HALF_OPEN

record CircuitBreaker =
  failure_threshold :: int
  timeout :: int
  state :: CircuitState
  failure_count :: int
  last_failure_time :: "real option"

text \<open>\<^verbatim>\<open>CircuitBreaker.__init__(failure_threshold, timeout)\<close>\<close>

definition CircuitBreaker_init :: "int \<Rightarrow> int \<Rightarrow> CircuitBreaker" where
  "CircuitBreaker_init threshold tmo =
     \<lparr>failure_threshold = threshold, timeout = tmo,
      state = CLOSED, failure_count = 0, last_failure_time = None\<rparr>"

text \<open>
  \<^verbatim>\<open>allow_request\<close>: the answer and the breaker after the call. In state OPEN the
  test \<^verbatim>\<open>if self.last_failure_time:\<close> is false exactly for \<^verbatim>\<open>None\<close>.
\<close>

definition allow_request :: "real \<Rightarrow> CircuitBreaker \<Rightarrow> bool \<times> CircuitBreaker" where
  "allow_request now cb =
     (if state cb = CLOSED then (True, cb)
      else if state cb = OPEN then
        (case last_failure_time cb of
           Some t \<Rightarrow>
             (let elapsed = now - t in
              if elapsed \<ge> real_of_int (timeout cb)
              then (True, cb\<lparr>state := HALF_OPEN\<rparr>)
              else (False, cb))
         | None \<Rightarrow> (False, cb))
      else if state cb = HALF_OPEN then (True, cb)
      else (False, cb))"

definition record_success :: "CircuitBreaker \<Rightarrow> CircuitBreaker" where
  "record_success cb =
     (if state cb = HALF_OPEN
      then cb\<lparr>state := CLOSED, failure_count := 0\<rparr>
      else cb)"

definition record_failure :: "real \<Rightarrow> CircuitBreaker \<Rightarrow> CircuitBreaker" where
  "record_failure now cb =
     (let cb1 = cb\<lparr>failure_count := failure_count cb + 1, last_failure_time := Some now\<rparr>;
          cb2 = (if state cb1 = HALF_OPEN then cb1\<lparr>state := OPEN\<rparr> else cb1)
      in if failure_count cb2 \<ge> failure_threshold cb2 \<and> state cb2 = CLOSED
         then cb2\<lparr>state := OPEN\<rparr>
         else cb2)"

text \<open>
  The calls a client can make on a breaker, each with the clock reading it sees, and the
  breaker after a sequence of calls.
\<close>

datatype cb_call = Allow real | RecordSuccess | RecordFailure real

fun cb_step :: "cb_call \<Rightarrow> CircuitBreaker \<Rightarrow> CircuitBreaker" where
  "cb_step (Allow now) cb = snd (allow_request now cb)"
| "cb_step RecordSuccess cb = record_success cb"
| "cb_step (RecordFailure now) cb = record_failure now cb"

fun cb_run :: "cb_call list \<Rightarrow> CircuitBreaker \<Rightarrow> CircuitBreaker" where
  "cb_run [] cb = cb"
| "cb_run (c # cs) cb = cb_run cs (cb_step c cb)"

text \<open>
  The last call of a sequence that changed \<open>state\<close>, with the breaker it was made on;
  \<open>acc\<close> is the answer for the calls already made.
\<close>

fun last_transition ::
  "cb_call list \<Rightarrow> CircuitBreaker \<Rightarrow> (CircuitBreaker \<times> cb_call) option
     \<Rightarrow> (CircuitBreaker \<times> cb_call) option" where
  "last_transition [] cb acc = acc"
| "last_transition (c # cs) cb acc =
     last_transition cs (cb_step c cb)
       (if state (cb_step c cb) \<noteq> state cb then Some (cb, c) else acc)"

text \<open>
  How the current \<open>state\<close> may have been entered, given the last state-changing call
  \<open>acc\<close>: OPEN by a failure recorded while CLOSED that brought the count to the
  threshold, or by a failure recorded while HALF_OPEN; CLOSED from the start, or by a
  success recorded while HALF_OPEN that left the count at 0.
\<close>

definition entered_by :: "CircuitBreaker \<Rightarrow> (CircuitBreaker \<times> cb_call) option \<Rightarrow> bool" where
  "entered_by cb acc \<longleftrightarrow>
     (state cb = OPEN \<longrightarrow>
        (\<exists>p t. acc = Some (p, RecordFailure t) \<and>
           (state p = CLOSED \<and> failure_count (record_failure t p) \<ge> failure_threshold p
            \<or> state p = HALF_OPEN))) \<and>
     (state cb = CLOSED \<longrightarrow>
        acc = None \<or>
        (\<exists>p. acc = Some (p, RecordSuccess) \<and> state p = HALF_OPEN
           \<and> failure_count (record_success p) = 0))"

subsection \<open>\<^verbatim>\<open>core/rate_limiter.py\<close>\<close>

record RateLimiter =
  max_per_second :: real
  max_per_day :: int
  tokens :: real
  last_refill :: real
  daily_requests :: int
  daily_reset :: real

text \<open>One day, \<^verbatim>\<open>timedelta(days=1)\<close>, in seconds.\<close>

definition one_day :: real where
  "one_day = 86400"

text \<open>
  \<^verbatim>\<open>RateLimiter.__init__(max_per_second, max_per_day)\<close>. It reads the clock twice:
  \<open>now\<close> becomes \<open>last_refill\<close>, and \<open>now'\<close> starts the day window.
\<close>

definition RateLimiter_init :: "real \<Rightarrow> int \<Rightarrow> real \<Rightarrow> real \<Rightarrow> RateLimiter" where
  "RateLimiter_init mps mpd now now' =
     \<lparr>max_per_second = mps, max_per_day = mpd,
      tokens = mps, last_refill = now,
      daily_requests = 0, daily_reset = now' + one_day\<rparr>"

text \<open>The two updates that \<^verbatim>\<open>acquire\<close> makes before it decides: refill, then daily reset.\<close>

definition refill :: "real \<Rightarrow> RateLimiter \<Rightarrow> RateLimiter" where
  "refill now rl =
     (let time_passed = now - last_refill rl in
      rl\<lparr>tokens := min (max_per_second rl) (tokens rl + time_passed * max_per_second rl),
         last_refill := now\<rparr>)"

definition reset_daily :: "real \<Rightarrow> RateLimiter \<Rightarrow> RateLimiter" where
  "reset_daily now rl =
     (if now \<ge> daily_reset rl
      then rl\<lparr>daily_requests := 0, daily_reset := now + one_day\<rparr>
      else rl)"

definition acquire :: "real \<Rightarrow> RateLimiter \<Rightarrow> bool \<times> RateLimiter" where
  "acquire now rl =
     (let rl1 = refill now rl;
          rl2 = reset_daily now rl1
      in if daily_requests rl2 \<ge> max_per_day rl2 then (False, rl2)
         else if tokens rl2 < 1 then (False, rl2)
         else (True, rl2\<lparr>tokens := tokens rl2 - 1,
                          daily_requests := daily_requests rl2 + 1\<rparr>))"

text \<open>A sequence of \<^verbatim>\<open>acquire\<close> calls at the given clock readings: answers and final limiter.\<close>

fun acquire_all :: "real list \<Rightarrow> RateLimiter \<Rightarrow> bool list \<times> RateLimiter" where
  "acquire_all [] rl = ([], rl)"
| "acquire_all (t # ts) rl =
     (let (b, rl') = acquire t rl; (bs, rl'') = acquire_all ts rl' in (b # bs, rl''))"

definition admitted :: "bool list \<Rightarrow> nat" where
  "admitted bs = length (filter (\<lambda>b. b) bs)"

text \<open>\<open>n\<close> clock readings starting at \<open>t\<close>, each \<open>d\<close> after the one before.\<close>

fun spaced :: "real \<Rightarrow> real \<Rightarrow> nat \<Rightarrow> real list" where
  "spaced t d 0 = []"
| "spaced t d (Suc n) = t # spaced (t + d) d n"

subsection \<open>\<^verbatim>\<open>core/cache_manager.py\<close>: the values and the libraries it calls\<close>

text \<open>
  A cached value is any Python object; \<^verbatim>\<open>None\<close> is singled out because
  \<^verbatim>\<open>get\<close> returns it on a miss. Exceptions are values: an operation returns what
  it raises or returns, together with the state it leaves behind (a raise does not undo
  the mutations made before it).
\<close>

datatype 'v py_value = PyNone | PyObj 'v

datatype exn = KeyError | ValueError | JSONError | RedisError | UnicodeEncodeError

text \<open>
  A key is a Python \<^verbatim>\<open>str\<close>: a list of code points, each below 1114112
  (0x110000). \<^verbatim>\<open>key.encode()\<close> is
  strict UTF-8: it gives the bytes of the key, or raises \<^verbatim>\<open>UnicodeEncodeError\<close>
  at a surrogate code point (U+D800 to U+DFFF), which a \<^verbatim>\<open>str\<close> can hold and
  UTF-8 cannot encode. Namespaces and composite keys are plain text, \<open>string\<close>;
  the cache manager itself never encodes them.
\<close>

definition utf8_bytes :: "nat \<Rightarrow> exn + nat list" where
  "utf8_bytes c =
     (if c < 128 then Inr [c]
      else if c < 2048 then Inr [192 + c div 64, 128 + c mod 64]
      else if 55296 \<le> c \<and> c < 57344 then Inl UnicodeEncodeError
      else if c < 65536 then Inr [224 + c div 4096, 128 + c div 64 mod 64, 128 + c mod 64]
      else Inr [240 + c div 262144, 128 + c div 4096 mod 64,
                128 + c div 64 mod 64, 128 + c mod 64])"

fun encode :: "nat list \<Rightarrow> exn + nat list" where
  "encode [] = Inr []"
| "encode (c # cs) =
     (case utf8_bytes c of
        Inl e \<Rightarrow> Inl e
      | Inr bs \<Rightarrow> (case encode cs of Inl e \<Rightarrow> Inl e | Inr rest \<Rightarrow> Inr (bs @ rest)))"

text \<open>
  Library functions whose code is outside the repository are parameters:
  \<^verbatim>\<open>hashlib.md5(bytes).hexdigest()\<close>, \<^verbatim>\<open>json.dumps\<close>, \<^verbatim>\<open>json.loads\<close>
  and the glob matching of the Redis command \<^verbatim>\<open>KEYS\<close>.
\<close>

record 'v library =
  md5_hexdigest :: "nat list \<Rightarrow> string"
  json_dumps :: "'v py_value \<Rightarrow> exn + string"
  json_loads :: "string \<Rightarrow> exn + 'v py_value"
  glob_match :: "string \<Rightarrow> string \<Rightarrow> bool"

subsection \<open>The local tier: \<^verbatim>\<open>cachetools.TTLCache\<close>\<close>

text \<open>
  \<^verbatim>\<open>TTLCache(maxsize, ttl)\<close> is library code: a bounded store in which every item
  expires \<open>ttl\<close> after it was last set, and the least recently used item is evicted
  when a new key does not fit. The model keeps the items as a list of
  (key, value, expiry time), least recently used first, every item of size 1. An item
  whose expiry time has been reached is never visible, whether or not it has been
  removed yet. Every operation of the cache reads its timer when it is called, so the
  time is an argument of each of them.
\<close>

record 'v TTLCache =
  maxsize :: nat
  ttl :: real
  items :: "(string \<times> 'v py_value \<times> real) list"

definition without :: "string \<Rightarrow> (string \<times> 'b) list \<Rightarrow> (string \<times> 'b) list" where
  "without k xs = filter (\<lambda>e. fst e \<noteq> k) xs"

text \<open>\<^verbatim>\<open>expire(time)\<close>: drop the items whose time has come.\<close>

definition expire :: "real \<Rightarrow> 'v TTLCache \<Rightarrow> 'v TTLCache" where
  "expire now c = c\<lparr>items := filter (\<lambda>(k, v, expires). now < expires) (items c)\<rparr>"

text \<open>\<^verbatim>\<open>key in cache\<close>\<close>

definition cache_contains :: "real \<Rightarrow> string \<Rightarrow> 'v TTLCache \<Rightarrow> bool" where
  "cache_contains now k c =
     (case map_of (items c) k of
        None \<Rightarrow> False
      | Some (v, expires) \<Rightarrow> now < expires)"

text \<open>\<^verbatim>\<open>cache[key]\<close>: \<^verbatim>\<open>KeyError\<close> for a missing or expired key; a hit makes the key the most recently used.\<close>

definition cache_getitem ::
  "real \<Rightarrow> string \<Rightarrow> 'v TTLCache \<Rightarrow> (exn + 'v py_value) \<times> 'v TTLCache" where
  "cache_getitem now k c =
     (case map_of (items c) k of
        None \<Rightarrow> (Inl KeyError, c)
      | Some (v, expires) \<Rightarrow>
          (let c' = c\<lparr>items := without k (items c) @ [(k, v, expires)]\<rparr> in
           if now < expires then (Inr v, c') else (Inl KeyError, c')))"

text \<open>
  \<^verbatim>\<open>cache[key] = value\<close>: expire, refuse with \<^verbatim>\<open>ValueError\<close> an item larger than
  the cache, pop least recently used items while a new key does not fit, then store the
  item with a fresh expiry time as the most recently used.
\<close>

definition evict :: "nat \<Rightarrow> 'a list \<Rightarrow> 'a list" where
  "evict m xs = drop (Suc (length xs) - m) xs"

definition cache_setitem ::
  "real \<Rightarrow> string \<Rightarrow> 'v py_value \<Rightarrow> 'v TTLCache \<Rightarrow> (exn + unit) \<times> 'v TTLCache" where
  "cache_setitem now k v c =
     (let c1 = expire now c in
      if 1 > maxsize c1 then (Inl ValueError, c1)
      else
        (let kept = (if map_of (items c1) k = None
                     then evict (maxsize c1) (items c1) else items c1)
         in (Inr (), c1\<lparr>items := without k kept @ [(k, v, now + ttl c1)]\<rparr>)))"

text \<open>\<^verbatim>\<open>del cache[key]\<close>: \<^verbatim>\<open>KeyError\<close> for a missing key, and for an expired one after removing it.\<close>

definition cache_delitem ::
  "real \<Rightarrow> string \<Rightarrow> 'v TTLCache \<Rightarrow> (exn + unit) \<times> 'v TTLCache" where
  "cache_delitem now k c =
     (case map_of (items c) k of
        None \<Rightarrow> (Inl KeyError, c)
      | Some (v, expires) \<Rightarrow>
          (let c' = c\<lparr>items := without k (items c)\<rparr> in
           if now < expires then (Inr (), c') else (Inl KeyError, c')))"

subsection \<open>The distributed tier: the Redis client\<close>

text \<open>
  The Redis server is outside the repository. It is a store of (key, string, expiry
  time) that either answers or makes every command raise: \<open>reachable\<close> is set by the
  environment, never by the cache manager. \<^verbatim>\<open>SETEX\<close> refuses an expiry that is not
  positive.
\<close>

record Redis =
  reachable :: bool
  store :: "(string \<times> string \<times> real) list"

definition redis_get :: "real \<Rightarrow> string \<Rightarrow> Redis \<Rightarrow> exn + string option" where
  "redis_get now k r =
     (if \<not> reachable r then Inl RedisError
      else (case map_of (store r) k of
              None \<Rightarrow> Inr None
            | Some (s, expires) \<Rightarrow> if now < expires then Inr (Some s) else Inr None))"

definition redis_setex ::
  "real \<Rightarrow> string \<Rightarrow> int \<Rightarrow> string \<Rightarrow> Redis \<Rightarrow> (exn + unit) \<times> Redis" where
  "redis_setex now k seconds s r =
     (if \<not> reachable r then (Inl RedisError, r)
      else if seconds \<le> 0 then (Inl RedisError, r)
      else (Inr (), r\<lparr>store := (k, s, now + real_of_int seconds) # without k (store r)\<rparr>))"

definition redis_delete :: "string list \<Rightarrow> Redis \<Rightarrow> (exn + unit) \<times> Redis" where
  "redis_delete ks r =
     (if \<not> reachable r then (Inl RedisError, r)
      else (Inr (), r\<lparr>store := filter (\<lambda>e. fst e \<notin> set ks) (store r)\<rparr>))"

definition redis_keys ::
  "('v, 'x) library_scheme \<Rightarrow> real \<Rightarrow> string \<Rightarrow> Redis \<Rightarrow> exn + string list" where
  "redis_keys L now pattern r =
     (if \<not> reachable r then Inl RedisError
      else Inr (map fst (filter (\<lambda>(k, s, expires). now < expires \<and> glob_match L pattern k)
                           (store r))))"

subsection \<open>\<^verbatim>\<open>CacheManager\<close>\<close>

record 'v CacheManager =
  memory_cache :: "'v TTLCache"
  redis_client :: "Redis option"
  cache_ttl_search :: int

text \<open>
  \<^verbatim>\<open>CacheManager.__init__\<close>: \<open>default_ttl\<close> is \<^verbatim>\<open>settings.cache_ttl_search\<close>, and
  \<open>client\<close> is what the constructor ends with in \<^verbatim>\<open>self.redis_client\<close>
  (\<^verbatim>\<open>None\<close> without the Redis package, without a URL or when \<^verbatim>\<open>from_url\<close> raises).
\<close>

definition CacheManager_init :: "int \<Rightarrow> Redis option \<Rightarrow> 'v CacheManager" where
  "CacheManager_init default_ttl client =
     \<lparr>memory_cache = \<lparr>maxsize = 1000, ttl = real_of_int default_ttl, items = []\<rparr>,
      redis_client = client,
      cache_ttl_search = default_ttl\<rparr>"

text \<open>\<^verbatim>\<open>_hash_key\<close> and \<^verbatim>\<open>_generate_key\<close>: they raise what \<^verbatim>\<open>key.encode()\<close> raises.\<close>

definition hash_key :: "('v, 'x) library_scheme \<Rightarrow> nat list \<Rightarrow> exn + string" where
  "hash_key L key =
     (case encode key of
        Inl e \<Rightarrow> Inl e
      | Inr bytes \<Rightarrow> Inr (md5_hexdigest L bytes))"

definition generate_key ::
  "('v, 'x) library_scheme \<Rightarrow> nat list \<Rightarrow> string \<Rightarrow> exn + string" where
  "generate_key L key namespace =
     (case hash_key L key of
        Inl e \<Rightarrow> Inl e
      | Inr h \<Rightarrow> Inr (namespace @ '':'' @ h))"

text \<open>
  \<^verbatim>\<open>get\<close>. The key derivation and the local-tier read are outside any \<^verbatim>\<open>try\<close>:
  what they raise reaches the caller. The local tier is asked twice, first
  \<^verbatim>\<open>cache_key in self.memory_cache\<close> at clock reading \<open>t_in\<close>, then
  \<^verbatim>\<open>self.memory_cache[cache_key]\<close> at \<open>t_at\<close>; on a local miss \<open>t_at\<close> is the
  time of the Redis lookup and of the write into the local tier. The \<^verbatim>\<open>try\<close> block
  is the branches that turn an \<open>Inl\<close> of a Redis, JSON or local-tier call into the
  miss answer.
\<close>

definition get ::
  "('v, 'x) library_scheme \<Rightarrow> nat list \<Rightarrow> string \<Rightarrow> real \<Rightarrow> real \<Rightarrow> 'v CacheManager
     \<Rightarrow> (exn + 'v py_value) \<times> 'v CacheManager" where
  "get L key namespace t_in t_at cm =
     (case generate_key L key namespace of
        Inl e \<Rightarrow> (Inl e, cm)
      | Inr cache_key \<Rightarrow>
          if cache_contains t_in cache_key (memory_cache cm) then
            (case cache_getitem t_at cache_key (memory_cache cm) of
               (res, mc) \<Rightarrow> (res, cm\<lparr>memory_cache := mc\<rparr>))
          else
            (case redis_client cm of
               None \<Rightarrow> (Inr PyNone, cm)
             | Some r \<Rightarrow>
                 (case redis_get t_at cache_key r of
                    Inl e \<Rightarrow> (Inr PyNone, cm)
                  | Inr None \<Rightarrow> (Inr PyNone, cm)
                  | Inr (Some value) \<Rightarrow>
                      if value \<noteq> [] then
                        (case json_loads L value of
                           Inl e \<Rightarrow> (Inr PyNone, cm)
                         | Inr deserialized \<Rightarrow>
                             (case cache_setitem t_at cache_key deserialized (memory_cache cm) of
                                (Inl e, mc) \<Rightarrow> (Inr PyNone, cm\<lparr>memory_cache := mc\<rparr>)
                              | (Inr u, mc) \<Rightarrow> (Inr deserialized, cm\<lparr>memory_cache := mc\<rparr>)))
                      else (Inr PyNone, cm))))"

text \<open>\<^verbatim>\<open>ttl or settings.cache_ttl_search\<close>: the default stands in for \<^verbatim>\<open>None\<close> and for 0.\<close>

definition ttl_or_default :: "int option \<Rightarrow> int \<Rightarrow> int" where
  "ttl_or_default ttl_arg default_ttl =
     (case ttl_arg of
        None \<Rightarrow> default_ttl
      | Some n \<Rightarrow> if n = 0 then default_ttl else n)"

text \<open>
  \<^verbatim>\<open>set\<close>; \<open>ttl_arg\<close> is the optional \<^verbatim>\<open>ttl\<close>. The key derivation and the
  local-tier write are outside the \<^verbatim>\<open>try\<close>.
\<close>

definition set_value ::
  "('v, 'x) library_scheme \<Rightarrow> nat list \<Rightarrow> 'v py_value \<Rightarrow> string \<Rightarrow> int option \<Rightarrow> real
     \<Rightarrow> 'v CacheManager \<Rightarrow> (exn + unit) \<times> 'v CacheManager" where
  "set_value L key v namespace ttl_arg now cm =
     (case generate_key L key namespace of
        Inl e \<Rightarrow> (Inl e, cm)
      | Inr cache_key \<Rightarrow>
          (let seconds = ttl_or_default ttl_arg (cache_ttl_search cm)
           in case cache_setitem now cache_key v (memory_cache cm) of
                (Inl e, mc) \<Rightarrow> (Inl e, cm\<lparr>memory_cache := mc\<rparr>)
              | (Inr u, mc) \<Rightarrow>
                  (let cm1 = cm\<lparr>memory_cache := mc\<rparr> in
                   case redis_client cm1 of
                     None \<Rightarrow> (Inr (), cm1)
                   | Some r \<Rightarrow>
                       (case json_dumps L v of
                          Inl e \<Rightarrow> (Inr (), cm1)
                        | Inr serialized \<Rightarrow>
                            (case redis_setex now cache_key seconds serialized r of
                               (res, r') \<Rightarrow> (Inr (), cm1\<lparr>redis_client := Some r'\<rparr>))))))"

text \<open>
  \<^verbatim>\<open>delete\<close>. The local tier is asked twice outside any \<^verbatim>\<open>try\<close>:
  \<^verbatim>\<open>cache_key in self.memory_cache\<close> at \<open>t_in\<close>, then
  \<^verbatim>\<open>del self.memory_cache[cache_key]\<close> at \<open>t_at\<close>. When the latter raises, the
  Redis delete is not reached.
\<close>

definition delete ::
  "('v, 'x) library_scheme \<Rightarrow> nat list \<Rightarrow> string \<Rightarrow> real \<Rightarrow> real \<Rightarrow> 'v CacheManager
     \<Rightarrow> (exn + unit) \<times> 'v CacheManager" where
  "delete L key namespace t_in t_at cm =
     (case generate_key L key namespace of
        Inl e \<Rightarrow> (Inl e, cm)
      | Inr cache_key \<Rightarrow>
          (case (if cache_contains t_in cache_key (memory_cache cm)
                 then cache_delitem t_at cache_key (memory_cache cm)
                 else (Inr (), memory_cache cm)) of
             (Inl e, mc) \<Rightarrow> (Inl e, cm\<lparr>memory_cache := mc\<rparr>)
           | (Inr u, mc) \<Rightarrow>
               (let cm1 = cm\<lparr>memory_cache := mc\<rparr> in
                case redis_client cm1 of
                  None \<Rightarrow> (Inr (), cm1)
                | Some r \<Rightarrow>
                    (case redis_delete [cache_key] r of
                       (res, r') \<Rightarrow> (Inr (), cm1\<lparr>redis_client := Some r'\<rparr>)))))"

text \<open>\<^verbatim>\<open>clear_namespace\<close>: only the distributed tier is touched.\<close>

definition clear_namespace ::
  "('v, 'x) library_scheme \<Rightarrow> string \<Rightarrow> real \<Rightarrow> 'v CacheManager
     \<Rightarrow> (exn + unit) \<times> 'v CacheManager" where
  "clear_namespace L namespace now cm =
     (let pattern = namespace @ '':*'' in
      case redis_client cm of
        None \<Rightarrow> (Inr (), cm)
      | Some r \<Rightarrow>
          (case redis_keys L now pattern r of
             Inl e \<Rightarrow> (Inr (), cm)
           | Inr keys \<Rightarrow>
               if keys \<noteq> [] then
                 (case redis_delete keys r of
                    (res, r') \<Rightarrow> (Inr (), cm\<lparr>redis_client := Some r'\<rparr>))
               else (Inr (), cm)))"

text \<open>
  The calls a client can make on the cache manager, each with its clock readings, and a
  sequence of them run in order.
\<close>

datatype 'v cm_call =
    Get "nat list" string real real
  | Set "nat list" "'v py_value" string "int option" real
  | Delete "nat list" string real real
  | ClearNamespace string real

fun cm_step :: "('v, 'x) library_scheme \<Rightarrow> 'v cm_call \<Rightarrow> 'v CacheManager \<Rightarrow> 'v CacheManager" where
  "cm_step L (Get key namespace t_in t_at) cm = snd (get L key namespace t_in t_at cm)"
| "cm_step L (Set key v namespace ttl_arg now) cm = snd (set_value L key v namespace ttl_arg now cm)"
| "cm_step L (Delete key namespace t_in t_at) cm = snd (delete L key namespace t_in t_at cm)"
| "cm_step L (ClearNamespace namespace now) cm = snd (clear_namespace L namespace now cm)"

fun cm_run :: "('v, 'x) library_scheme \<Rightarrow> 'v cm_call list \<Rightarrow> 'v CacheManager \<Rightarrow> 'v CacheManager" where
  "cm_run L [] cm = cm"
| "cm_run L (c # cs) cm = cm_run L cs (cm_step L c cm)"


text \<open>The composite key that a call stores a value under.\<close>

fun sets_key :: "('v, 'x) library_scheme \<Rightarrow> string \<Rightarrow> 'v cm_call \<Rightarrow> bool" where
  "sets_key L ck (Set key v namespace ttl_arg now) = (generate_key L key namespace = Inr ck)"
| "sets_key L ck c = False"

text \<open>A composite key that neither tier holds.\<close>

definition in_no_tier :: "string \<Rightarrow> 'v CacheManager \<Rightarrow> bool" where
  "in_no_tier ck cm \<longleftrightarrow>
     map_of (items (memory_cache cm)) ck = None \<and>
     (case redis_client cm of None \<Rightarrow> True | Some r \<Rightarrow> map_of (store r) ck = None)"

text \<open>
  What each tier would answer for a composite key at time \<open>now\<close>: the unexpired
  local item, and the Redis string that is present, not empty and parses as JSON.
\<close>

definition local_value :: "real \<Rightarrow> string \<Rightarrow> 'v TTLCache \<Rightarrow> 'v py_value option" where
  "local_value now ck c =
     (case map_of (items c) ck of
        None \<Rightarrow> None
      | Some (v, expires) \<Rightarrow> if now < expires then Some v else None)"

definition remote_value ::
  "('v, 'x) library_scheme \<Rightarrow> real \<Rightarrow> string \<Rightarrow> Redis option \<Rightarrow> 'v py_value option" where
  "remote_value L now ck client =
     (case client of
        None \<Rightarrow> None
      | Some r \<Rightarrow>
          (case redis_get now ck r of
             Inl e \<Rightarrow> None
           | Inr None \<Rightarrow> None
           | Inr (Some s) \<Rightarrow>
               if s \<noteq> [] then (case json_loads L s of Inl e \<Rightarrow> None | Inr d \<Rightarrow> Some d)
               else None))"

text \<open>
  A small instance of the library parameters and a Redis store with two keys, on which
  the operations can be evaluated: the stand-in for the hash writes the bytes of
  \<^verbatim>\<open>a\<close> and \<^verbatim>\<open>k\<close> in hexadecimal, a pattern \<open>p*\<close> matches the keys that
  start with \<open>p\<close>.
\<close>

definition example_library :: "nat library" where
  "example_library =
     \<lparr>md5_hexdigest =
        (\<lambda>bytes. concat (map (\<lambda>b. if b = 97 then ''61'' else if b = 107 then ''6b'' else ''00'')
                            bytes)),
      json_dumps = (\<lambda>v. case v of PyNone \<Rightarrow> Inr ''null'' | PyObj n \<Rightarrow> Inr ''1''),
      json_loads = (\<lambda>s. if s = ''null'' then Inr PyNone else Inr (PyObj 1)),
      glob_match = (\<lambda>pattern key. take (length pattern - 1) key = butlast pattern)\<rparr>"

definition example_redis :: Redis where
  "example_redis = \<lparr>reachable = True,
                  store = [(''ns:a'', ''1'', 100), (''other:b'', ''1'', 100)]\<rparr>"

section \<open>The circuit breaker\<close>

lemma record_failure_fields:
  "failure_count (record_failure t cb) = failure_count cb + 1"
  "last_failure_time (record_failure t cb) = Some t"
  "failure_threshold (record_failure t cb) = failure_threshold cb"
  "timeout (record_failure t cb) = timeout cb"
  by (simp_all add: record_failure_def Let_def)

lemma record_failure_state:
  "state (record_failure t cb) =
     (if state cb = CLOSED \<and> failure_count cb + 1 < failure_threshold cb then CLOSED else OPEN)"
  by (cases "state cb") (simp_all add: record_failure_def Let_def)

lemma cb_step_config:
  "failure_threshold (cb_step c cb) = failure_threshold cb \<and> timeout (cb_step c cb) = timeout cb"
  by (cases c)
     (auto simp: allow_request_def record_success_def record_failure_def Let_def
           split: option.splits)

lemma cb_step_count_nonneg: "0 \<le> failure_count cb \<Longrightarrow> 0 \<le> failure_count (cb_step c cb)"
  by (cases c)
     (auto simp: allow_request_def record_success_def record_failure_def Let_def
           split: option.splits)

lemma cb_run_config:
  "failure_threshold (cb_run cs cb) = failure_threshold cb \<and> timeout (cb_run cs cb) = timeout cb"
  by (induction cs arbitrary: cb) (simp_all add: cb_step_config)

lemma cb_run_count_nonneg: "0 \<le> failure_count cb \<Longrightarrow> 0 \<le> failure_count (cb_run cs cb)"
  by (induction cs arbitrary: cb) (simp_all add: cb_step_count_nonneg)

subsection \<open>How OPEN and CLOSED are entered\<close>

lemma cb_step_into_OPEN:
  assumes "state (cb_step c cb) = OPEN" and "state cb \<noteq> OPEN"
  shows "\<exists>t. c = RecordFailure t \<and>
           (state cb = CLOSED \<and> failure_count (record_failure t cb) \<ge> failure_threshold cb
            \<or> state cb = HALF_OPEN)"
  using assms
  by (cases c; cases "state cb")
     (auto simp: allow_request_def record_success_def record_failure_def Let_def
           split: option.splits if_splits)

lemma cb_step_into_CLOSED:
  assumes "state (cb_step c cb) = CLOSED" and "state cb \<noteq> CLOSED"
  shows "c = RecordSuccess \<and> state cb = HALF_OPEN \<and> failure_count (record_success cb) = 0"
  using assms
  by (cases c; cases "state cb")
     (auto simp: allow_request_def record_success_def record_failure_def Let_def
           split: option.splits if_splits)

lemma entered_by_step:
  assumes "entered_by cb acc"
  shows "entered_by (cb_step c cb) (if state (cb_step c cb) \<noteq> state cb then Some (cb, c) else acc)"
proof (cases "state (cb_step c cb) = state cb")
  case True
  with assms show ?thesis by (simp add: entered_by_def)
next
  case False
  show ?thesis
  proof (cases "state (cb_step c cb)")
    case CLOSED
    with False cb_step_into_CLOSED[of c cb] show ?thesis
      by (auto simp: entered_by_def)
  next
    case OPEN
    with False cb_step_into_OPEN[of c cb] show ?thesis
      by (auto simp: entered_by_def)
  next
    case HALF_OPEN
    with False show ?thesis by (simp add: entered_by_def)
  qed
qed

lemma entered_by_run:
  "entered_by cb acc \<Longrightarrow> entered_by (cb_run cs cb) (last_transition cs cb acc)"
proof (induction cs arbitrary: cb acc)
  case Nil
  then show ?case by simp
next
  case (Cons c cs)
  from Cons.prems have "entered_by (cb_step c cb)
      (if state (cb_step c cb) \<noteq> state cb then Some (cb, c) else acc)"
    by (rule entered_by_step)
  from Cons.IH[OF this] show ?case by simp
qed

lemma entered_by_init: "entered_by (CircuitBreaker_init th tmo) None"
  by (simp add: entered_by_def CircuitBreaker_init_def)

text \<open>
  Claim C3. After any sequence of \<^verbatim>\<open>allow_request\<close>, \<^verbatim>\<open>record_success\<close> and
  \<^verbatim>\<open>record_failure\<close> calls on a new breaker: if the breaker is OPEN, the last call
  that changed its state was a \<^verbatim>\<open>record_failure\<close>, made either while CLOSED and
  bringing \<open>failure_count\<close> to at least \<open>failure_threshold\<close>, or while HALF_OPEN; if
  the breaker is CLOSED, either no call has changed its state yet, or the last call that
  did was a \<^verbatim>\<open>record_success\<close> made while HALF_OPEN, which set \<open>failure_count\<close> to 0.
\<close>

theorem breaker_state_entered:
  fixes cs :: "cb_call list" and th tmo :: int
  defines "cb \<equiv> cb_run cs (CircuitBreaker_init th tmo)"
  defines "lt \<equiv> last_transition cs (CircuitBreaker_init th tmo) None"
  shows "(state cb = OPEN \<longrightarrow>
           (\<exists>p t. lt = Some (p, RecordFailure t) \<and>
              (state p = CLOSED \<and> failure_count (record_failure t p) \<ge> failure_threshold p
               \<or> state p = HALF_OPEN))) \<and>
         (state cb = CLOSED \<longrightarrow>
            lt = None \<or>
            (\<exists>p. lt = Some (p, RecordSuccess) \<and> state p = HALF_OPEN
               \<and> failure_count (record_success p) = 0))"
  using entered_by_run[OF entered_by_init, of cs th tmo]
  unfolding entered_by_def cb_def lt_def by simp

theorem breaker_state_entered_witness:
  "state (cb_run [RecordFailure 1, RecordFailure 2] (CircuitBreaker_init 2 10)) = OPEN
   \<and> (\<exists>p t. last_transition [RecordFailure 1, RecordFailure 2] (CircuitBreaker_init 2 10) None
              = Some (p, RecordFailure t)
          \<and> (state p = CLOSED \<and> failure_count (record_failure t p) \<ge> failure_threshold p
             \<or> state p = HALF_OPEN))
   \<and> state (cb_run [RecordFailure 1, RecordFailure 2, Allow 20, RecordSuccess]
               (CircuitBreaker_init 2 10)) = CLOSED
   \<and> (\<exists>p. last_transition [RecordFailure 1, RecordFailure 2, Allow 20, RecordSuccess]
              (CircuitBreaker_init 2 10) None = Some (p, RecordSuccess)
          \<and> state p = HALF_OPEN \<and> failure_count (record_success p) = 0)"
proof -
  have o: "state (cb_run [RecordFailure 1, RecordFailure 2] (CircuitBreaker_init 2 10)) = OPEN"
    by (simp add: CircuitBreaker_init_def record_failure_state record_failure_fields)
  have c: "state (cb_run [RecordFailure 1, RecordFailure 2, Allow 20, RecordSuccess]
               (CircuitBreaker_init 2 10)) = CLOSED"
    by (simp add: CircuitBreaker_init_def record_failure_def allow_request_def
                  record_success_def Let_def)
  have n: "last_transition [RecordFailure 1, RecordFailure 2, Allow 20, RecordSuccess]
              (CircuitBreaker_init 2 10) None \<noteq> None"
    by (simp add: CircuitBreaker_init_def record_failure_def allow_request_def
                  record_success_def Let_def)
  show ?thesis
    using o c n
      breaker_state_entered [of "[RecordFailure 1, RecordFailure 2]" 2 10]
      breaker_state_entered [of "[RecordFailure 1, RecordFailure 2, Allow 20, RecordSuccess]" 2 10]
    by (simp add: CircuitBreaker_init_def record_failure_def allow_request_def
                  record_success_def Let_def)
qed

subsection \<open>The cycle of a breaker with threshold 5\<close>

lemma five_failures_open:
  assumes "failure_threshold cb = 5" and "state cb = CLOSED" and "0 \<le> failure_count cb"
  shows "state (cb_run [RecordFailure t1, RecordFailure t2, RecordFailure t3,
                        RecordFailure t4, RecordFailure t5] cb) = OPEN
       \<and> last_failure_time (cb_run [RecordFailure t1, RecordFailure t2, RecordFailure t3,
                        RecordFailure t4, RecordFailure t5] cb) = Some t5"
  using assms by (simp add: record_failure_fields record_failure_state)

text \<open>
  Claim C4. Take a breaker constructed with \<open>failure_threshold = 5\<close>, after any calls
  that leave it CLOSED. Five consecutive \<^verbatim>\<open>record_failure\<close> calls, the last at time
  \<open>t5\<close>, open it. Then \<^verbatim>\<open>allow_request\<close> at a time less than \<open>timeout\<close> after
  \<open>t5\<close> returns false and changes nothing (so every such call does), and at a time
  at least \<open>timeout\<close> after \<open>t5\<close> it returns true and leaves the breaker HALF_OPEN;
  from there \<^verbatim>\<open>record_success\<close> gives CLOSED with \<open>failure_count = 0\<close>, and
  \<^verbatim>\<open>record_failure\<close> gives OPEN.
\<close>

theorem breaker_threshold_five:
  fixes cs :: "cb_call list" and tmo :: int and t1 t2 t3 t4 t5 early late t6 :: real
  defines "cb \<equiv> cb_run cs (CircuitBreaker_init 5 tmo)"
  defines "opened \<equiv> cb_run [RecordFailure t1, RecordFailure t2, RecordFailure t3,
                             RecordFailure t4, RecordFailure t5] cb"
  defines "half \<equiv> snd (allow_request late opened)"
  assumes closed: "state cb = CLOSED"
  shows "state opened = OPEN
       \<and> (early - t5 < real_of_int tmo \<longrightarrow> allow_request early opened = (False, opened))
       \<and> (late - t5 \<ge> real_of_int tmo \<longrightarrow>
            fst (allow_request late opened) \<and> state half = HALF_OPEN
            \<and> state (record_success half) = CLOSED \<and> failure_count (record_success half) = 0
            \<and> state (record_failure t6 half) = OPEN)"
proof -
  have th: "failure_threshold cb = 5" and to: "timeout cb = tmo"
    unfolding cb_def by (simp_all add: cb_run_config CircuitBreaker_init_def)
  have nn: "0 \<le> failure_count cb"
    unfolding cb_def by (rule cb_run_count_nonneg) (simp add: CircuitBreaker_init_def)
  have op: "state opened = OPEN" and lf: "last_failure_time opened = Some t5"
    using five_failures_open[OF th closed nn, of t1 t2 t3 t4 t5] unfolding opened_def by simp_all
  have to': "timeout opened = tmo"
    unfolding opened_def using to by (simp only: cb_run_config)
  have early: "early - t5 < real_of_int tmo \<Longrightarrow> allow_request early opened = (False, opened)"
    using op lf to' by (simp add: allow_request_def Let_def)
  have late: "half = opened\<lparr>state := HALF_OPEN\<rparr> \<and> fst (allow_request late opened)"
    if "late - t5 \<ge> real_of_int tmo"
    using that op lf to' unfolding half_def by (simp add: allow_request_def Let_def)
  have after: "state (record_success h) = CLOSED \<and> failure_count (record_success h) = 0
      \<and> state (record_failure t6 h) = OPEN" if "state h = HALF_OPEN" for h
    using that by (simp add: record_success_def record_failure_state)
  show ?thesis
    using op early late after[of half] by auto
qed

theorem breaker_threshold_five_witness:
  "state (cb_run [] (CircuitBreaker_init 5 60)) = CLOSED
   \<and> state (cb_run [RecordFailure 1, RecordFailure 2, RecordFailure 3, RecordFailure 4,
                    RecordFailure 5] (cb_run [] (CircuitBreaker_init 5 60))) = OPEN
   \<and> (10::real) - 5 < real_of_int 60 \<and> (65::real) - 5 \<ge> real_of_int 60
   \<and> \<not> fst (allow_request 10 (cb_run [RecordFailure 1, RecordFailure 2, RecordFailure 3,
                    RecordFailure 4, RecordFailure 5] (cb_run [] (CircuitBreaker_init 5 60))))
   \<and> fst (allow_request 65 (cb_run [RecordFailure 1, RecordFailure 2, RecordFailure 3,
                    RecordFailure 4, RecordFailure 5] (cb_run [] (CircuitBreaker_init 5 60))))"
  using breaker_threshold_five [of "[]" 60 1 2 3 4 5 10 65 70]
  by (simp add: CircuitBreaker_init_def record_failure_fields record_failure_state)

subsection \<open>A success outside HALF_OPEN\<close>

text \<open>
  Claim C10. On a breaker that is OPEN or CLOSED, \<^verbatim>\<open>record_success\<close> changes
  nothing: \<open>state\<close>, \<open>failure_count\<close> and \<open>last_failure_time\<close> (and the
  configuration) stay as they were. In particular a success recorded while OPEN does not
  close the circuit and does not reset the failure count.
\<close>

theorem record_success_not_half_open:
  "state cb = OPEN \<or> state cb = CLOSED \<Longrightarrow> record_success cb = cb"
  by (auto simp: record_success_def)

theorem record_success_not_half_open_witness:
  "state (cb_run [RecordFailure 1, RecordFailure 2] (CircuitBreaker_init 2 10)) = OPEN
   \<and> failure_count (cb_run [RecordFailure 1, RecordFailure 2] (CircuitBreaker_init 2 10)) = 2
   \<and> record_success (cb_run [RecordFailure 1, RecordFailure 2] (CircuitBreaker_init 2 10))
       = cb_run [RecordFailure 1, RecordFailure 2] (CircuitBreaker_init 2 10)"
proof -
  have o: "state (cb_run [RecordFailure 1, RecordFailure 2] (CircuitBreaker_init 2 10)) = OPEN"
    by (simp add: CircuitBreaker_init_def record_failure_state record_failure_fields)
  have c: "failure_count (cb_run [RecordFailure 1, RecordFailure 2] (CircuitBreaker_init 2 10)) = 2"
    by (simp add: CircuitBreaker_init_def record_failure_fields)
  show ?thesis
    using o c record_success_not_half_open
      [of "cb_run [RecordFailure 1, RecordFailure 2] (CircuitBreaker_init 2 10)"]
    by simp
qed

section \<open>The rate limiter\<close>

lemma acquire_fields:
  "max_per_second (snd (acquire now rl)) = max_per_second rl"
  "max_per_day (snd (acquire now rl)) = max_per_day rl"
  "last_refill (snd (acquire now rl)) = now"
  by (simp_all add: acquire_def refill_def reset_daily_def Let_def)

lemma acquire_rejected:
  "\<not> fst (acquire now rl) \<Longrightarrow> snd (acquire now rl) = reset_daily now (refill now rl)"
  by (simp add: acquire_def Let_def split: if_splits)

lemma acquire_admitted:
  "fst (acquire now rl) \<Longrightarrow>
     snd (acquire now rl) =
       (reset_daily now (refill now rl))
         \<lparr>tokens := tokens (reset_daily now (refill now rl)) - 1,
          daily_requests := daily_requests (reset_daily now (refill now rl)) + 1\<rparr>
     \<and> daily_requests (reset_daily now (refill now rl)) < max_per_day rl
     \<and> 1 \<le> tokens (reset_daily now (refill now rl))"
  by (auto simp: acquire_def Let_def refill_def reset_daily_def min_def split: if_splits)

lemma tokens_after_refill:
  "tokens (reset_daily now (refill now rl)) =
     min (max_per_second rl) (tokens rl + (now - last_refill rl) * max_per_second rl)"
  by (simp add: refill_def reset_daily_def Let_def)

lemma daily_after_reset:
  "daily_requests (reset_daily now (refill now rl)) =
     (if now \<ge> daily_reset rl then 0 else daily_requests rl)"
  by (simp add: refill_def reset_daily_def Let_def)

lemma acquire_daily_reset:
  "daily_reset (snd (acquire now rl)) =
     (if now \<ge> daily_reset rl then now + one_day else daily_reset rl)"
  by (simp add: acquire_def refill_def reset_daily_def Let_def)

text \<open>
  The bucket never holds more than \<open>max_per_second\<close> tokens and a call needs one
  whole token, so a limiter with \<open>max_per_second < 1\<close> admits nothing, at any time.
\<close>

lemma capacity_below_one_never_admits:
  "max_per_second rl < 1 \<Longrightarrow> \<not> fst (acquire now rl)"
  by (auto simp: acquire_def refill_def reset_daily_def Let_def min_def)

subsection \<open>What a rejected call leaves behind\<close>

text \<open>
  Claim C2, as amended. When \<^verbatim>\<open>acquire\<close> returns false, no token is consumed and
  the daily count is not incremented, but the two updates made before the decision are
  kept: \<open>tokens\<close> is the refilled value
  \<open>min max_per_second (tokens + elapsed * max_per_second)\<close>, and \<open>daily_requests\<close>
  is its old value, or 0 when the day window had run out.
\<close>

theorem acquire_rejected_effects:
  "\<not> fst (acquire now rl) \<Longrightarrow>
     snd (acquire now rl) = reset_daily now (refill now rl)
     \<and> tokens (snd (acquire now rl)) =
         min (max_per_second rl) (tokens rl + (now - last_refill rl) * max_per_second rl)
     \<and> daily_requests (snd (acquire now rl)) =
         (if now \<ge> daily_reset rl then 0 else daily_requests rl)"
  by (simp add: acquire_rejected tokens_after_refill daily_after_reset)

theorem acquire_rejected_effects_witness:
  "\<not> fst (acquire (1/2) (snd (acquire 0 (RateLimiter_init 1 3 0 0))))
   \<and> tokens (snd (acquire (1/2) (snd (acquire 0 (RateLimiter_init 1 3 0 0))))) = 1/2
   \<and> daily_requests (snd (acquire (1/2) (snd (acquire 0 (RateLimiter_init 1 3 0 0))))) = 1"
proof -
  have r: "\<not> fst (acquire (1/2) (snd (acquire 0 (RateLimiter_init 1 3 0 0))))"
    by (simp add: acquire_def refill_def reset_daily_def RateLimiter_init_def one_day_def Let_def)
  show ?thesis
    using r acquire_rejected_effects [OF r]
    by (simp add: acquire_def refill_def reset_daily_def RateLimiter_init_def one_day_def Let_def)
qed

text \<open>
  Claim C2 as stated fails: on a limiter with one token per second, a call at time 0 is
  admitted and leaves 0 tokens; a call half a second later is rejected and leaves 1/2.
  And with a daily cap of 3, after calls at 0 and 86399.5 a call at 86400 is rejected
  for want of a token while the daily count goes from 2 to 0.
\<close>

theorem acquire_rejected_changes_state:
  "\<not> fst (acquire (1/2) (snd (acquire 0 (RateLimiter_init 1 3 0 0))))
   \<and> tokens (snd (acquire 0 (RateLimiter_init 1 3 0 0))) = 0
   \<and> tokens (snd (acquire (1/2) (snd (acquire 0 (RateLimiter_init 1 3 0 0))))) = 1/2
   \<and> \<not> fst (acquire 86400 (snd (acquire_all [0, 86399 + 1/2] (RateLimiter_init 1 3 0 0))))
   \<and> daily_requests (snd (acquire_all [0, 86399 + 1/2] (RateLimiter_init 1 3 0 0))) = 2
   \<and> daily_requests
        (snd (acquire 86400 (snd (acquire_all [0, 86399 + 1/2] (RateLimiter_init 1 3 0 0))))) = 0"
  by (simp add: acquire_def refill_def reset_daily_def RateLimiter_init_def one_day_def Let_def)

subsection \<open>Bounds on the two budgets\<close>

lemma acquire_tokens_le:
  "tokens (snd (acquire now rl)) \<le> max_per_second rl"
  by (auto simp: acquire_def refill_def reset_daily_def Let_def min_def)

lemma acquire_daily_le:
  "daily_requests rl \<le> max_per_day rl \<Longrightarrow> 0 \<le> max_per_day rl \<Longrightarrow>
     daily_requests (snd (acquire now rl)) \<le> max_per_day rl"
  by (simp add: acquire_def refill_def reset_daily_def Let_def)

lemma acquire_daily_nonneg:
  "0 \<le> daily_requests rl \<Longrightarrow> 0 \<le> daily_requests (snd (acquire now rl))"
  by (simp add: acquire_def refill_def reset_daily_def Let_def)

lemma acquire_all_Cons:
  "acquire_all (t # ts) rl =
     (fst (acquire t rl) # fst (acquire_all ts (snd (acquire t rl))),
      snd (acquire_all ts (snd (acquire t rl))))"
  by (simp add: case_prod_unfold Let_def)

lemma acquire_all_config:
  "max_per_second (snd (acquire_all ts rl)) = max_per_second rl
   \<and> max_per_day (snd (acquire_all ts rl)) = max_per_day rl"
  by (induction ts arbitrary: rl) (simp_all add: acquire_all_Cons acquire_fields del: acquire_all.simps(2))

lemma acquire_all_tokens_le:
  "tokens rl \<le> max_per_second rl \<Longrightarrow>
     tokens (snd (acquire_all ts rl)) \<le> max_per_second rl"
proof (induction ts arbitrary: rl)
  case Nil
  then show ?case by simp
next
  case (Cons t ts)
  have "tokens (snd (acquire t rl)) \<le> max_per_second (snd (acquire t rl))"
    by (simp add: acquire_tokens_le acquire_fields)
  from Cons.IH[OF this] show ?case
    by (simp add: acquire_all_Cons acquire_fields del: acquire_all.simps(2))
qed

lemma acquire_all_daily_le:
  "daily_requests rl \<le> max_per_day rl \<Longrightarrow> 0 \<le> max_per_day rl \<Longrightarrow>
     daily_requests (snd (acquire_all ts rl)) \<le> max_per_day rl"
proof (induction ts arbitrary: rl)
  case Nil
  then show ?case by simp
next
  case (Cons t ts)
  have "daily_requests (snd (acquire t rl)) \<le> max_per_day (snd (acquire t rl))"
    using Cons.prems by (simp add: acquire_daily_le acquire_fields)
  moreover have "0 \<le> max_per_day (snd (acquire t rl))"
    using Cons.prems by (simp add: acquire_fields)
  ultimately show ?case
    using Cons.IH[of "snd (acquire t rl)"]
    by (simp add: acquire_all_Cons acquire_fields del: acquire_all.simps(2))
qed


text \<open>
  Claim C7, as amended. After any sequence of \<^verbatim>\<open>acquire\<close> calls on a new limiter,
  \<open>tokens \<le> max_per_second\<close>; and \<open>daily_requests \<le> max_per_day\<close> provided
  \<open>max_per_day\<close> is not negative. For any limiter, a call that is admitted leaves
  \<open>daily_requests \<le> max_per_day\<close>: the count is never incremented past the cap.
\<close>

theorem limiter_bounds:
  fixes ts :: "real list" and mps t0 t0' now :: real and mpd :: int and rl0 :: RateLimiter
  defines "rl \<equiv> snd (acquire_all ts (RateLimiter_init mps mpd t0 t0'))"
  shows "tokens rl \<le> mps
       \<and> (0 \<le> mpd \<longrightarrow> daily_requests rl \<le> mpd)
       \<and> (fst (acquire now rl0) \<longrightarrow>
            daily_requests (snd (acquire now rl0)) \<le> max_per_day rl0)"
proof -
  have "tokens rl \<le> mps"
    unfolding rl_def
    using acquire_all_tokens_le[of "RateLimiter_init mps mpd t0 t0'" ts]
    by (simp add: RateLimiter_init_def)
  moreover have "daily_requests rl \<le> mpd" if "0 \<le> mpd"
    unfolding rl_def
    using that acquire_all_daily_le[of "RateLimiter_init mps mpd t0 t0'" ts]
    by (simp add: RateLimiter_init_def)
  moreover have "daily_requests (snd (acquire now rl0)) \<le> max_per_day rl0"
    if "fst (acquire now rl0)"
    using acquire_admitted[OF that] by simp
  ultimately show ?thesis by blast
qed

theorem limiter_bounds_witness:
  "(0::int) \<le> 3 \<and> fst (acquire 0 (RateLimiter_init 1 3 0 0))
   \<and> tokens (snd (acquire_all [0, 1, 2, 3] (RateLimiter_init 1 3 0 0))) \<le> 1
   \<and> daily_requests (snd (acquire_all [0, 1, 2, 3] (RateLimiter_init 1 3 0 0))) \<le> 3
   \<and> daily_requests (snd (acquire 0 (RateLimiter_init 1 3 0 0))) \<le> 3"
proof -
  have a: "fst (acquire 0 (RateLimiter_init 1 3 0 0))"
    by (simp add: acquire_def refill_def reset_daily_def RateLimiter_init_def one_day_def Let_def)
  show ?thesis
    using a limiter_bounds
            [where ts = "[0, 1, 2, 3]" and mps = 1 and mpd = 3 and ?t0.0 = 0 and t0' = 0
               and now = 0 and ?rl0.0 = "RateLimiter_init 1 3 0 0"]
    by (simp add: RateLimiter_init_def)
qed

text \<open>
  Claim C7 as stated fails for a negative cap: the constructor sets the daily count to 0,
  above \<open>max_per_day = -1\<close>, and a (rejected) call leaves it there.
\<close>

theorem daily_cap_negative:
  "daily_requests (snd (acquire 0 (RateLimiter_init 1 (- 1) 0 0))) = 0
   \<and> max_per_day (snd (acquire 0 (RateLimiter_init 1 (- 1) 0 0))) = - 1
   \<and> \<not> daily_requests (RateLimiter_init 1 (- 1) 0 0) \<le> max_per_day (RateLimiter_init 1 (- 1) 0 0)"
  by (simp add: acquire_def refill_def reset_daily_def RateLimiter_init_def one_day_def Let_def)

subsection \<open>How many calls a token bucket admits\<close>

lemma admitted_Cons: "admitted (b # bs) = (if b then 1 else 0) + admitted bs"
  by (simp add: admitted_def)

lemma acquire_token_budget:
  assumes "0 \<le> max_per_second rl" and "0 \<le> tokens rl" and "last_refill rl \<le> now"
  shows "(if fst (acquire now rl) then 1 else 0) + tokens (snd (acquire now rl))
           \<le> min (max_per_second rl) (tokens rl + (now - last_refill rl) * max_per_second rl)
         \<and> 0 \<le> tokens (snd (acquire now rl))"
proof -
  have "0 \<le> (now - last_refill rl) * max_per_second rl"
    using assms by simp
  then have nn: "0 \<le> min (max_per_second rl) (tokens rl + (now - last_refill rl) * max_per_second rl)"
    using assms by simp
  show ?thesis
  proof (cases "fst (acquire now rl)")
    case True
    from acquire_admitted[OF True] show ?thesis
      using True by (simp add: tokens_after_refill)
  next
    case False
    from acquire_rejected[OF False] show ?thesis
      using False nn by (simp add: tokens_after_refill)
  qed
qed

lemma acquire_all_token_budget:
  assumes "0 \<le> max_per_second rl" and "0 \<le> tokens rl" and "sorted (last_refill rl # ts)"
  shows "real (admitted (fst (acquire_all ts rl))) + tokens (snd (acquire_all ts rl))
           \<le> tokens rl + (last (last_refill rl # ts) - last_refill rl) * max_per_second rl
         \<and> 0 \<le> tokens (snd (acquire_all ts rl))"
  using assms
proof (induction ts arbitrary: rl)
  case Nil
  then show ?case by (simp add: admitted_def)
next
  case (Cons t ts)
  let ?rl1 = "snd (acquire t rl)"
  have le: "last_refill rl \<le> t" using Cons.prems(3) by simp
  have step: "(if fst (acquire t rl) then 1 else 0) + tokens ?rl1
           \<le> tokens rl + (t - last_refill rl) * max_per_second rl" and nn: "0 \<le> tokens ?rl1"
    using acquire_token_budget[OF Cons.prems(1,2) le] by simp_all
  have s1: "sorted (last_refill ?rl1 # ts)"
    using Cons.prems(3) by (simp add: acquire_fields)
  have m1: "0 \<le> max_per_second ?rl1" using Cons.prems(1) by (simp add: acquire_fields)
  have ih: "real (admitted (fst (acquire_all ts ?rl1))) + tokens (snd (acquire_all ts ?rl1))
           \<le> tokens ?rl1 + (last (t # ts) - t) * max_per_second rl"
      and nn': "0 \<le> tokens (snd (acquire_all ts ?rl1))"
    using Cons.IH[OF m1 nn s1] by (simp_all add: acquire_fields)
  have l: "last (last_refill rl # t # ts) = last (t # ts)" by simp
  have "real (admitted (fst (acquire_all (t # ts) rl))) + tokens (snd (acquire_all (t # ts) rl))
      = (if fst (acquire t rl) then 1 else 0) + (real (admitted (fst (acquire_all ts ?rl1)))
          + tokens (snd (acquire_all ts ?rl1)))"
    by (simp add: acquire_all_Cons admitted_Cons del: acquire_all.simps(2))
  also have "\<dots> \<le> (if fst (acquire t rl) then 1 else 0) + (tokens ?rl1 + (last (t # ts) - t) * max_per_second rl)"
    using ih by simp
  also have "\<dots> \<le> tokens rl + (t - last_refill rl) * max_per_second rl + (last (t # ts) - t) * max_per_second rl"
    using step by simp
  also have "\<dots> = tokens rl + (last (t # ts) - last_refill rl) * max_per_second rl"
    by (simp add: algebra_simps)
  finally show ?case
    using nn' unfolding l by (simp add: acquire_all_Cons del: acquire_all.simps(2))
qed

lemma window_budget:
  assumes "0 \<le> max_per_second rl" and "0 \<le> tokens rl" and "sorted (last_refill rl # t # ts)"
  shows "real (admitted (fst (acquire_all (t # ts) rl)))
           \<le> max_per_second rl + max_per_second rl * (last (t # ts) - t)"
proof -
  let ?rl1 = "snd (acquire t rl)"
  have le: "last_refill rl \<le> t" using assms(3) by simp
  have step: "(if fst (acquire t rl) then 1 else 0) + tokens ?rl1 \<le> max_per_second rl"
      and nn: "0 \<le> tokens ?rl1"
    using acquire_token_budget[OF assms(1,2) le] by simp_all
  have s1: "sorted (last_refill ?rl1 # ts)"
    using assms(3) by (simp add: acquire_fields)
  have m1: "0 \<le> max_per_second ?rl1" using assms(1) by (simp add: acquire_fields)
  have rest: "real (admitted (fst (acquire_all ts ?rl1))) + tokens (snd (acquire_all ts ?rl1))
           \<le> tokens ?rl1 + (last (t # ts) - t) * max_per_second rl"
      and nn': "0 \<le> tokens (snd (acquire_all ts ?rl1))"
    using acquire_all_token_budget[OF m1 nn s1] by (simp_all add: acquire_fields)
  have "real (admitted (fst (acquire_all (t # ts) rl)))
      = (if fst (acquire t rl) then 1 else 0) + real (admitted (fst (acquire_all ts ?rl1)))"
    by (simp add: acquire_all_Cons admitted_Cons del: acquire_all.simps(2))
  also have "\<dots> \<le> (if fst (acquire t rl) then 1 else 0) + tokens ?rl1
        + (last (t # ts) - t) * max_per_second rl"
    using rest nn' by simp
  also have "\<dots> \<le> max_per_second rl + (last (t # ts) - t) * max_per_second rl"
    using step by simp
  finally show ?thesis by (simp add: mult.commute)
qed

lemma acquire_all_tokens_nonneg:
  assumes "0 \<le> max_per_second rl" and "0 \<le> tokens rl" and "sorted (last_refill rl # ts)"
  shows "0 \<le> tokens (snd (acquire_all ts rl))"
  using acquire_all_token_budget[OF assms] by simp

lemma acquire_all_last_refill:
  "last_refill (snd (acquire_all ts rl)) = last (last_refill rl # ts)"
  by (induction ts arbitrary: rl)
     (simp_all add: acquire_all_Cons acquire_fields del: acquire_all.simps(2))

lemma spaced_all_admitted:
  assumes "1 \<le> max_per_second rl"
      and "max_per_second rl \<le> tokens rl + (t - last_refill rl) * max_per_second rl"
      and "0 \<le> daily_requests rl" and "daily_requests rl + int n \<le> max_per_day rl"
  shows "fst (acquire_all (spaced t (1 / max_per_second rl) n) rl) = replicate n True"
  using assms
proof (induction n arbitrary: rl t)
  case 0
  then show ?case by simp
next
  case (Suc n)
  let ?N = "max_per_second rl"
  let ?rl1 = "snd (acquire t rl)"
  have tk: "tokens (reset_daily t (refill t rl)) = ?N"
    using Suc.prems(2) by (simp add: tokens_after_refill)
  have d: "daily_requests (reset_daily t (refill t rl)) \<ge> 0
         \<and> daily_requests (reset_daily t (refill t rl)) + int (Suc n) \<le> max_per_day rl"
    using Suc.prems(3,4) by (simp add: daily_after_reset)
  have adm: "fst (acquire t rl)"
    using tk d Suc.prems(1)
    by (simp add: acquire_def Let_def refill_def reset_daily_def split: if_splits)
  have f0: "last_refill ?rl1 = t" "max_per_second ?rl1 = ?N" "max_per_day ?rl1 = max_per_day rl"
    by (simp_all add: acquire_fields)
  from acquire_admitted[OF adm]
  have f1: "tokens ?rl1 = ?N - 1"
       "daily_requests ?rl1 = daily_requests (reset_daily t (refill t rl)) + 1"
    using tk by simp_all
  note f1 = f0 f1
  have p1: "1 \<le> max_per_second ?rl1" using Suc.prems(1) f1 by simp
  have "(t + 1 / ?N - t) * ?N = 1" using Suc.prems(1) by simp
  then have p2: "max_per_second ?rl1
        \<le> tokens ?rl1 + (t + 1 / max_per_second rl - last_refill ?rl1) * max_per_second ?rl1"
    using f1 by simp
  have p3: "0 \<le> daily_requests ?rl1" using d f1 by simp
  have p4: "daily_requests ?rl1 + int n \<le> max_per_day ?rl1" using d f1 by simp
  have "fst (acquire_all (spaced (t + 1 / ?N) (1 / max_per_second ?rl1) n) ?rl1) = replicate n True"
    by (rule Suc.IH[OF p1 p2 p3 p4])
  then show ?case
    using adm f1 by (simp add: acquire_all_Cons del: acquire_all.simps(2))
qed


text \<open>
  Calls spaced \<open>1 / N\<close> apart, \<open>N \<ge> 1\<close>: each call finds the bucket refilled to
  \<open>N\<close>, so only the daily count can reject it.
\<close>

lemma spaced_step_full:
  assumes "1 \<le> max_per_second rl"
      and "max_per_second rl \<le> tokens rl + (t - last_refill rl) * max_per_second rl"
  shows "tokens (reset_daily t (refill t rl)) = max_per_second rl"
    and "fst (acquire t rl) \<longleftrightarrow> daily_requests (reset_daily t (refill t rl)) < max_per_day rl"
    and "max_per_second rl
           \<le> tokens (snd (acquire t rl))
               + (t + 1 / max_per_second rl - last_refill (snd (acquire t rl))) * max_per_second rl"
proof -
  show tk: "tokens (reset_daily t (refill t rl)) = max_per_second rl"
    using assms(2) by (simp add: tokens_after_refill)
  show iff: "fst (acquire t rl) \<longleftrightarrow> daily_requests (reset_daily t (refill t rl)) < max_per_day rl"
    using tk assms(1)
    by (auto simp: acquire_def Let_def refill_def reset_daily_def split: if_splits)
  have one: "(t + 1 / max_per_second rl - t) * max_per_second rl = 1"
    using assms(1) by simp
  have ge: "max_per_second rl - 1 \<le> tokens (snd (acquire t rl))"
  proof (cases "fst (acquire t rl)")
    case True
    from acquire_admitted[OF True] show ?thesis using tk by simp
  next
    case False
    from acquire_rejected[OF False] show ?thesis using tk by simp
  qed
  show "max_per_second rl
           \<le> tokens (snd (acquire t rl))
               + (t + 1 / max_per_second rl - last_refill (snd (acquire t rl))) * max_per_second rl"
    using ge one by (simp add: acquire_fields)
qed

lemma spaced_keeps_full:
  assumes "1 \<le> max_per_second rl"
      and "max_per_second rl \<le> tokens rl + (t - last_refill rl) * max_per_second rl"
  shows "max_per_second rl
           \<le> tokens (snd (acquire_all (spaced t (1 / max_per_second rl) n) rl))
               + (t + real n * (1 / max_per_second rl)
                    - last_refill (snd (acquire_all (spaced t (1 / max_per_second rl) n) rl)))
                 * max_per_second rl"
  using assms
proof (induction n arbitrary: rl t)
  case 0
  then show ?case by simp
next
  case (Suc n)
  let ?N = "max_per_second rl"
  let ?rl1 = "snd (acquire t rl)"
  have m: "max_per_second ?rl1 = ?N" by (simp add: acquire_fields)
  have p1: "1 \<le> max_per_second ?rl1" using Suc.prems(1) by (simp add: m)
  have p2: "max_per_second ?rl1
        \<le> tokens ?rl1 + (t + 1 / ?N - last_refill ?rl1) * max_per_second ?rl1"
    using spaced_step_full(3)[OF Suc.prems] by (simp only: m)
  have tm: "t + 1 / ?N + real n * (1 / ?N) = t + real (Suc n) * (1 / ?N)"
    by (simp add: add_divide_distrib)
  from Suc.IH[OF p1 p2] show ?case
    unfolding m tm by (simp add: acquire_all_Cons del: acquire_all.simps(2))
qed

lemma spaced_all_admitted_daily:
  assumes "1 \<le> max_per_second rl"
      and "one_day * max_per_second rl \<le> real_of_int (max_per_day rl)"
      and "max_per_second rl \<le> tokens rl + (t - last_refill rl) * max_per_second rl"
      and "real_of_int (daily_requests rl)
             \<le> (t - (daily_reset rl - one_day)) * max_per_second rl"
  shows "fst (acquire_all (spaced t (1 / max_per_second rl) n) rl) = replicate n True"
  using assms
proof (induction n arbitrary: rl t)
  case 0
  then show ?case by simp
next
  case (Suc n)
  let ?N = "max_per_second rl"
  let ?rl1 = "snd (acquire t rl)"
  let ?d = "daily_requests (reset_daily t (refill t rl))"
  have pos: "0 < ?N" using Suc.prems(1) by simp
  have cap: "0 < real_of_int (max_per_day rl)"
  proof -
    have "0 < one_day * ?N" using pos by (simp add: one_day_def)
    with Suc.prems(2) show ?thesis by simp
  qed
  have below: "?d < max_per_day rl"
  proof (cases "t \<ge> daily_reset rl")
    case True
    then show ?thesis using cap by (simp add: daily_after_reset)
  next
    case False
    then have "(t - (daily_reset rl - one_day)) * ?N < one_day * ?N"
      using pos by simp
    with Suc.prems(2,4) have "real_of_int (daily_requests rl) < real_of_int (max_per_day rl)"
      by simp
    then show ?thesis using False by (simp add: daily_after_reset)
  qed
  have adm: "fst (acquire t rl)"
    using spaced_step_full(2)[OF Suc.prems(1,3)] below by simp
  have f0: "max_per_second ?rl1 = ?N" "max_per_day ?rl1 = max_per_day rl"
    by (simp_all add: acquire_fields)
  from acquire_admitted[OF adm] have dr: "daily_requests ?rl1 = ?d + 1"
    by simp
  have p1: "1 \<le> max_per_second ?rl1" using Suc.prems(1) by (simp add: f0)
  have p2: "one_day * max_per_second ?rl1 \<le> real_of_int (max_per_day ?rl1)"
    using Suc.prems(2) by (simp add: f0)
  have p3: "max_per_second ?rl1
        \<le> tokens ?rl1 + (t + 1 / ?N - last_refill ?rl1) * max_per_second ?rl1"
    using spaced_step_full(3)[OF Suc.prems(1,3)] by (simp only: f0)
  have one: "(t + 1 / ?N - x) * ?N = (t - x) * ?N + 1" for x
    using pos by (simp add: algebra_simps)
  have p4: "real_of_int (daily_requests ?rl1)
        \<le> (t + 1 / ?N - (daily_reset ?rl1 - one_day)) * max_per_second ?rl1"
  proof (cases "t \<ge> daily_reset rl")
    case True
    then show ?thesis
      using pos by (simp add: f0 dr daily_after_reset acquire_daily_reset one)
  next
    case False
    then show ?thesis
      using Suc.prems(4) by (simp add: f0 dr daily_after_reset acquire_daily_reset one)
  qed
  have "fst (acquire_all (spaced (t + 1 / ?N) (1 / max_per_second ?rl1) n) ?rl1) = replicate n True"
    by (rule Suc.IH[OF p1 p2 p3 p4])
  then show ?case
    using adm f0 by (simp add: acquire_all_Cons del: acquire_all.simps(2))
qed

lemma sorted_last_append:
  "sorted (xs @ ys) \<Longrightarrow> xs \<noteq> [] \<Longrightarrow> sorted (last xs # ys)"
  by (induction xs) (auto simp: sorted_append)

lemma window_bound_new_limiter:
  assumes "0 \<le> N" and "sorted (t0 # pre @ t # ts)"
  shows "real (admitted (fst (acquire_all (t # ts)
                 (snd (acquire_all pre (RateLimiter_init N mpd t0 t0'))))))
           \<le> N + N * (last (t # ts) - t)"
proof -
  let ?rl = "snd (acquire_all pre (RateLimiter_init N mpd t0 t0'))"
  have mps: "max_per_second ?rl = N"
    by (simp add: acquire_all_config RateLimiter_init_def)
  have s0: "sorted (last_refill (RateLimiter_init N mpd t0 t0') # pre)"
    using assms(2) by (simp add: RateLimiter_init_def sorted_append)
  have nn: "0 \<le> tokens ?rl"
    by (rule acquire_all_tokens_nonneg[OF _ _ s0]) (use assms(1) in \<open>simp_all add: RateLimiter_init_def\<close>)
  have lr: "last_refill ?rl = last (t0 # pre)"
    by (simp add: acquire_all_last_refill RateLimiter_init_def)
  have "sorted ((t0 # pre) @ t # ts)" using assms(2) by simp
  then have "sorted (last (t0 # pre) # t # ts)"
    by (rule sorted_last_append) simp
  then have s1: "sorted (last_refill ?rl # t # ts)" by (simp only: lr)
  have m0: "0 \<le> max_per_second ?rl" using assms(1) mps by simp
  show ?thesis
    using window_budget[OF m0 nn s1] by (simp only: mps)
qed

text \<open>
  Claim C1, as amended. Let the clock never go back and \<open>max_per_second = N \<ge> 0\<close>,
  and take the calls \<open>t # ts\<close> made after any earlier calls \<open>pre\<close> on a new
  limiter, \<open>d\<close> being the time from the first to the last of them. When they are made
  at one instant (\<open>d = 0\<close>), at most \<open>N\<close> return true. In general fewer than
  \<open>N + N * d + 1\<close> return true, so fewer than \<open>2 * N + 1\<close> when they lie within
  one second: the bucket holds \<open>N\<close> tokens and refills \<open>N\<close> per second, and the
  margin of one call keeps the bound clear of the rounding of the code's
  double-precision sums, which can round a refill up to a whole token.

  Calls spaced exactly \<open>1 / N\<close> apart on a new limiter with \<open>N \<ge> 1\<close> are rejected
  only by the daily cap: each of them returns true exactly when the daily count, after
  the daily reset, is below \<open>max_per_day\<close>. So the first \<open>max_per_day\<close> calls all
  return true, and every call does, however many are made, when
  \<open>max_per_day \<ge> 86400 * N\<close>.
\<close>

theorem token_bucket_admission:
  fixes N t0 t0' t t1 :: real and mpd :: int and pre ts :: "real list" and n :: nat
  defines "rl \<equiv> snd (acquire_all pre (RateLimiter_init N mpd t0 t0'))"
  defines "rn \<equiv> snd (acquire_all (spaced t1 (1 / N) n) (RateLimiter_init N mpd t0 t0'))"
  defines "tn \<equiv> t1 + real n * (1 / N)"
  shows "(0 \<le> N \<and> sorted (t0 # pre @ t # ts) \<and> last (t # ts) = t \<longrightarrow>
            real (admitted (fst (acquire_all (t # ts) rl))) \<le> N)
       \<and> (0 \<le> N \<and> sorted (t0 # pre @ t # ts) \<longrightarrow>
            real (admitted (fst (acquire_all (t # ts) rl))) < N + N * (last (t # ts) - t) + 1)
       \<and> (0 \<le> N \<and> sorted (t0 # pre @ t # ts) \<and> last (t # ts) - t \<le> 1 \<longrightarrow>
            real (admitted (fst (acquire_all (t # ts) rl))) < 2 * N + 1)
       \<and> (1 \<le> N \<and> t0 \<le> t1 \<and> t0' \<le> t1
            \<and> (int n \<le> mpd \<or> one_day * N \<le> real_of_int mpd) \<longrightarrow>
            fst (acquire_all (spaced t1 (1 / N) n) (RateLimiter_init N mpd t0 t0'))
              = replicate n True)
       \<and> (1 \<le> N \<and> t0 \<le> t1 \<longrightarrow>
            (fst (acquire tn rn) \<longleftrightarrow> daily_requests (reset_daily tn (refill tn rn)) < mpd))"
proof (intro conjI impI)
  assume a: "0 \<le> N \<and> sorted (t0 # pre @ t # ts) \<and> last (t # ts) = t"
  then have "real (admitted (fst (acquire_all (t # ts) rl))) \<le> N + N * (last (t # ts) - t)"
    unfolding rl_def by (intro window_bound_new_limiter) simp_all
  with a show "real (admitted (fst (acquire_all (t # ts) rl))) \<le> N" by simp
next
  assume a: "0 \<le> N \<and> sorted (t0 # pre @ t # ts)"
  then have "real (admitted (fst (acquire_all (t # ts) rl))) \<le> N + N * (last (t # ts) - t)"
    unfolding rl_def by (intro window_bound_new_limiter) simp_all
  then show "real (admitted (fst (acquire_all (t # ts) rl))) < N + N * (last (t # ts) - t) + 1"
    by simp
next
  assume a: "0 \<le> N \<and> sorted (t0 # pre @ t # ts) \<and> last (t # ts) - t \<le> 1"
  then have b: "real (admitted (fst (acquire_all (t # ts) rl))) \<le> N + N * (last (t # ts) - t)"
    unfolding rl_def by (intro window_bound_new_limiter) simp_all
  have "N * (last (t # ts) - t) \<le> N * 1"
    using a by (intro mult_left_mono) simp_all
  with b show "real (admitted (fst (acquire_all (t # ts) rl))) < 2 * N + 1"
    by simp
next
  assume a: "1 \<le> N \<and> t0 \<le> t1 \<and> t0' \<le> t1
            \<and> (int n \<le> mpd \<or> one_day * N \<le> real_of_int mpd)"
  let ?r = "RateLimiter_init N mpd t0 t0'"
  have full: "0 \<le> (t1 - t0) * N" and day: "0 \<le> (t1 - t0') * N" using a by simp_all
  from a consider "int n \<le> mpd" | "one_day * N \<le> real_of_int mpd" by blast
  then have "fst (acquire_all (spaced t1 (1 / max_per_second ?r) n) ?r) = replicate n True"
  proof cases
    case 1
    then show ?thesis
      using a full by (intro spaced_all_admitted) (simp_all add: RateLimiter_init_def)
  next
    case 2
    then show ?thesis
      using a full day by (intro spaced_all_admitted_daily) (simp_all add: RateLimiter_init_def)
  qed
  then show "fst (acquire_all (spaced t1 (1 / N) n) ?r) = replicate n True"
    by (simp add: RateLimiter_init_def)
next
  assume a: "1 \<le> N \<and> t0 \<le> t1"
  let ?r = "RateLimiter_init N mpd t0 t0'"
  have N: "max_per_second ?r = N" by (simp add: RateLimiter_init_def)
  have p1: "1 \<le> max_per_second ?r" using a by (simp add: N)
  have "0 \<le> (t1 - t0) * N" using a by simp
  then have p2: "max_per_second ?r \<le> tokens ?r + (t1 - last_refill ?r) * max_per_second ?r"
    by (simp add: RateLimiter_init_def)
  have cfg: "max_per_second rn = N" "max_per_day rn = mpd"
    unfolding rn_def by (simp_all add: acquire_all_config RateLimiter_init_def)
  have q1: "1 \<le> max_per_second rn" using a by (simp add: cfg)
  have q2: "max_per_second rn \<le> tokens rn + (tn - last_refill rn) * max_per_second rn"
    using spaced_keeps_full[OF p1 p2, of n] unfolding rn_def tn_def N
    by (simp add: acquire_all_config RateLimiter_init_def)
  show "fst (acquire tn rn) \<longleftrightarrow> daily_requests (reset_daily tn (refill tn rn)) < mpd"
    using spaced_step_full(2)[OF q1 q2] by (simp add: cfg)
qed

theorem token_bucket_admission_witness:
  "(0::real) \<le> 2 \<and> sorted ((0::real) # [] @ 0 # [0, 1/2]) \<and> last ((0::real) # [0, 1/2]) - 0 \<le> 1
   \<and> real (admitted (fst (acquire_all (0 # [0, 1/2])
              (snd (acquire_all [] (RateLimiter_init 2 100 0 0)))))) < 2 * 2 + 1
   \<and> sorted ((0::real) # [] @ 0 # [0, 0]) \<and> last ((0::real) # [0, 0]) = 0
   \<and> real (admitted (fst (acquire_all (0 # [0, 0])
              (snd (acquire_all [] (RateLimiter_init 2 100 0 0)))))) \<le> 2
   \<and> (1::real) \<le> 2 \<and> (0::real) \<le> 0 \<and> int 3 \<le> 100
   \<and> fst (acquire_all (spaced 0 (1 / 2) 3) (RateLimiter_init 2 100 0 0)) = replicate 3 True
   \<and> one_day * 1 \<le> real_of_int 86400
   \<and> fst (acquire_all (spaced 0 (1 / 1) 3) (RateLimiter_init 1 86400 0 0)) = replicate 3 True"
  using token_bucket_admission
          [where N = 2 and mpd = 100 and ?t0.0 = 0 and t0' = 0 and pre = "[]" and t = 0
             and ts = "[0, 1/2]" and ?t1.0 = 0 and n = 3]
        token_bucket_admission
          [where N = 2 and mpd = 100 and ?t0.0 = 0 and t0' = 0 and pre = "[]" and t = 0
             and ts = "[0, 0]" and ?t1.0 = 0 and n = 3]
        token_bucket_admission
          [where N = 1 and mpd = 86400 and ?t0.0 = 0 and t0' = 0 and pre = "[]" and t = 0
             and ts = "[]" and ?t1.0 = 0 and n = 3]
  by (simp add: one_day_def)

text \<open>
  Claim C1 as stated fails twice. With \<open>N = 2\<close>, the calls at 0, 0 and 1/2 lie within
  one second and all three are admitted: the bucket starts full and refills meanwhile.
  With \<open>N = 1\<close> and a daily cap of 3, of four calls spaced one second apart the fourth
  is rejected.
\<close>

theorem token_bucket_over_N:
  "admitted (fst (acquire_all [0, 0, 1/2] (RateLimiter_init 2 100 0 0))) = 3
   \<and> fst (acquire_all (spaced 0 (1 / 1) 4) (RateLimiter_init 1 3 0 0)) = [True, True, True, False]"
  by (simp add: admitted_def acquire_def refill_def reset_daily_def RateLimiter_init_def
        one_day_def Let_def eval_nat_numeral)

section \<open>The cache manager\<close>

subsection \<open>Keys\<close>

lemma generate_key_encode:
  "generate_key L key ns =
     (case encode key of Inl e \<Rightarrow> Inl e | Inr b \<Rightarrow> Inr (ns @ '':'' @ md5_hexdigest L b))"
  by (simp add: generate_key_def hash_key_def split: sum.splits)


subsection \<open>The local tier\<close>

lemma map_of_without: "map_of (without k xs) k' = (if k' = k then None else map_of xs k')"
  by (induction xs) (auto simp: without_def)

lemma map_of_without_snoc:
  "map_of (without k xs @ [(k, y)]) k' = (if k' = k then Some y else map_of xs k')"
  by (auto simp: map_of_without map_add_def split: option.splits)

lemma cache_contains_local: "cache_contains now ck c \<longleftrightarrow> local_value now ck c \<noteq> None"
  by (simp add: cache_contains_def local_value_def split: option.splits)

lemma cache_getitem_hit:
  "local_value now ck c = Some v \<Longrightarrow> fst (cache_getitem now ck c) = Inr v"
  by (auto simp: cache_getitem_def local_value_def Let_def split: option.splits if_splits)

lemma cache_getitem_config:
  "maxsize (snd (cache_getitem now ck c)) = maxsize c \<and> ttl (snd (cache_getitem now ck c)) = ttl c"
  by (auto simp: cache_getitem_def Let_def split: option.splits)

lemma cache_setitem_ok:
  assumes "0 < maxsize c"
  shows "fst (cache_setitem now k v c) = Inr ()"
    and "map_of (items (snd (cache_setitem now k v c))) k = Some (v, now + ttl c)"
    and "maxsize (snd (cache_setitem now k v c)) = maxsize c"
    and "ttl (snd (cache_setitem now k v c)) = ttl c"
  using assms
  by (simp_all add: cache_setitem_def expire_def Let_def map_of_without_snoc del: map_of_append)

lemma cache_setitem_local:
  "0 < maxsize c \<Longrightarrow>
     local_value now' k (snd (cache_setitem now k v c)) = (if now' < now + ttl c then Some v else None)"
  by (simp add: local_value_def cache_setitem_ok)

lemma cache_getitem_result:
  "fst (cache_getitem now ck c) =
     (case local_value now ck c of Some v \<Rightarrow> Inr v | None \<Rightarrow> Inl KeyError)"
  by (auto simp: cache_getitem_def local_value_def Let_def split: option.splits)


subsection \<open>\<^verbatim>\<open>set\<close>, \<^verbatim>\<open>get\<close> and \<^verbatim>\<open>delete\<close> on the two tiers\<close>


lemma set_value_ok:
  assumes "0 < maxsize (memory_cache cm)" and "generate_key L key ns = Inr ck"
  shows "fst (set_value L key v ns ttl_arg now cm) = Inr ()"
    and "memory_cache (snd (set_value L key v ns ttl_arg now cm))
           = snd (cache_setitem now ck v (memory_cache cm))"
proof -
  obtain mc where s: "cache_setitem now ck v (memory_cache cm) = (Inr (), mc)"
    using cache_setitem_ok(1)[OF assms(1), of now ck v]
    by (cases "cache_setitem now ck v (memory_cache cm)") simp
  show "fst (set_value L key v ns ttl_arg now cm) = Inr ()"
    by (simp add: set_value_def Let_def assms(2) s split: option.splits sum.splits prod.splits)
  show "memory_cache (snd (set_value L key v ns ttl_arg now cm))
           = snd (cache_setitem now ck v (memory_cache cm))"
    by (simp add: set_value_def Let_def assms(2) s split: option.splits sum.splits prod.splits)
qed

lemma get_result:
  assumes "0 < maxsize (memory_cache cm)" and "generate_key L key ns = Inr ck"
  shows "fst (get L key ns t_in t_at cm) =
     (case local_value t_in ck (memory_cache cm) of
        Some v \<Rightarrow>
          (case local_value t_at ck (memory_cache cm) of
             Some v' \<Rightarrow> Inr v'
           | None \<Rightarrow> Inl KeyError)
      | None \<Rightarrow>
          Inr (case remote_value L t_at ck (redis_client cm) of
                 Some d \<Rightarrow> d
               | None \<Rightarrow> PyNone))"
proof (cases "local_value t_in ck (memory_cache cm)")
  case (Some v)
  then have c: "cache_contains t_in ck (memory_cache cm)"
    by (simp add: cache_contains_local)
  show ?thesis
    by (simp add: get_def assms(2) c Some case_prod_unfold cache_getitem_result)
next
  case None
  then have c: "\<not> cache_contains t_in ck (memory_cache cm)"
    by (simp add: cache_contains_local)
  have s: "fst (cache_setitem t_at ck d (memory_cache cm)) = Inr ()" for d
    by (rule cache_setitem_ok(1)[OF assms(1)])
  have s': "cache_setitem t_at ck d (memory_cache cm)
        = (Inr (), snd (cache_setitem t_at ck d (memory_cache cm)))" for d
    using s[of d] by (metis prod.collapse)
  show ?thesis
    apply (simp add: get_def assms(2) c None remote_value_def split: option.splits sum.splits)
    apply (intro allI impI conjI)
    apply (subst s')
    apply simp
    done
qed


lemma delete_result:
  assumes "generate_key L key ns = Inr ck"
  shows "fst (delete L key ns t_in t_at cm) =
           (if local_value t_in ck (memory_cache cm) \<noteq> None
               \<and> local_value t_at ck (memory_cache cm) = None
            then Inl KeyError else Inr ())"
    and "local_value t_in ck (memory_cache (snd (delete L key ns t_in t_at cm))) = None"
proof -
  show "fst (delete L key ns t_in t_at cm) =
           (if local_value t_in ck (memory_cache cm) \<noteq> None
               \<and> local_value t_at ck (memory_cache cm) = None
            then Inl KeyError else Inr ())"
  proof (cases "map_of (items (memory_cache cm)) ck")
    case None
    then show ?thesis
      by (simp add: delete_def assms cache_contains_def local_value_def Let_def
               split: option.splits prod.splits)
  next
    case (Some p)
    obtain v ex where p: "p = (v, ex)" by (cases p)
    show ?thesis
      using Some unfolding p
      by (simp add: delete_def assms cache_contains_def cache_delitem_def local_value_def Let_def
               split: option.splits prod.splits)
  qed
  show "local_value t_in ck (memory_cache (snd (delete L key ns t_in t_at cm))) = None"
  proof (cases "map_of (items (memory_cache cm)) ck")
    case None
    then show ?thesis
      by (simp add: delete_def assms cache_contains_def local_value_def Let_def
               split: option.splits prod.splits)
  next
    case (Some p)
    obtain v ex where p: "p = (v, ex)" by (cases p)
    show ?thesis
      using Some unfolding p
      by (simp add: delete_def assms cache_contains_def cache_delitem_def local_value_def Let_def
               map_of_without split: option.splits prod.splits)
  qed
qed

text \<open>
  An item that expires between the two clock readings of \<^verbatim>\<open>get\<close> or
  \<^verbatim>\<open>delete\<close> is found by the membership test and gone at the subscript or
  \<^verbatim>\<open>del\<close>: both raise \<^verbatim>\<open>KeyError\<close> to the caller, whatever Redis does.
\<close>

lemma expiry_between_readings:
  assumes "0 < maxsize (memory_cache cm)" and "generate_key L key ns = Inr ck"
      and "local_value t_in ck (memory_cache cm) = Some v"
      and "local_value t_at ck (memory_cache cm) = None"
  shows "fst (get L key ns t_in t_at cm) = Inl KeyError"
    and "fst (delete L key ns t_in t_at cm) = Inl KeyError"
  using assms(3,4)
  by (simp_all add: get_result[OF assms(1,2)] delete_result(1)[OF assms(2)])



subsection \<open>\<^verbatim>\<open>clear_namespace\<close>\<close>

lemma clear_namespace_ok: "fst (clear_namespace L ns now cm) = Inr ()"
  by (simp add: clear_namespace_def Let_def split: option.splits sum.splits prod.splits)

lemma redis_keys_after_delete:
  assumes "reachable r" and "redis_keys L now pat r = Inr ks" and "now \<le> now'"
  shows "redis_keys L now' pat (snd (redis_delete ks r)) = Inr []"
proof -
  have ks: "ks = map fst (filter (\<lambda>(k, s, expires). now < expires \<and> glob_match L pat k) (store r))"
    using assms(1,2) by (simp add: redis_keys_def)
  have "filter (\<lambda>(k, s, expires). now' < expires \<and> glob_match L pat k)
          (filter (\<lambda>e. fst e \<notin> set ks) (store r)) = []"
    unfolding filter_empty_conv
  proof (intro ballI)
    fix e assume "e \<in> set (filter (\<lambda>e. fst e \<notin> set ks) (store r))"
    then have m: "e \<in> set (store r)" and n: "fst e \<notin> set ks" by simp_all
    obtain k s x where e: "e = (k, s, x)" by (cases e)
    have "\<not> (now < x \<and> glob_match L pat k)"
      using m n unfolding ks e by force
    then show "\<not> (case e of (k, s, expires) \<Rightarrow> now' < expires \<and> glob_match L pat k)"
      using assms(3) unfolding e by auto
  qed
  then show ?thesis
    using assms(1) by (simp add: redis_keys_def redis_delete_def)
qed

lemma redis_keys_empty_later:
  assumes "redis_keys L now pat r = Inr []" and "now \<le> now'"
  shows "redis_keys L now' pat r = Inr []"
proof -
  have re: "reachable r" using assms(1) by (simp add: redis_keys_def split: if_splits)
  have "filter (\<lambda>(k, s, expires). now < expires \<and> glob_match L pat k) (store r) = []"
    using assms(1) re by (simp add: redis_keys_def)
  then have "\<forall>e \<in> set (store r). \<not> (case e of (k, s, expires) \<Rightarrow> now < expires \<and> glob_match L pat k)"
    by (simp add: filter_empty_conv)
  then have "\<forall>e \<in> set (store r). \<not> (case e of (k, s, expires) \<Rightarrow> now' < expires \<and> glob_match L pat k)"
    using assms(2) by fastforce
  then have "filter (\<lambda>(k, s, expires). now' < expires \<and> glob_match L pat k) (store r) = []"
    by (simp add: filter_empty_conv)
  then show ?thesis using re by (simp add: redis_keys_def)
qed

lemma clear_namespace_again:
  assumes "now \<le> now'"
  shows "clear_namespace L ns now' (snd (clear_namespace L ns now cm))
           = (Inr (), snd (clear_namespace L ns now cm))"
proof (cases "redis_client cm")
  case None
  then show ?thesis by (simp add: clear_namespace_def)
next
  case (Some r)
  show ?thesis
  proof (cases "redis_keys L now (ns @ '':*'') r")
    case (Inl e)
    then have u: "\<not> reachable r" by (simp add: redis_keys_def split: if_splits)
    then have "redis_keys L now' (ns @ '':*'') r = Inl RedisError" by (simp add: redis_keys_def)
    then show ?thesis using Some Inl by (simp add: clear_namespace_def)
  next
    case (Inr ks)
    then have re: "reachable r" by (simp add: redis_keys_def split: if_splits)
    show ?thesis
    proof (cases "ks = []")
      case True
      then have "redis_keys L now' (ns @ '':*'') r = Inr []"
        using redis_keys_empty_later[OF _ assms] Inr by simp
      then show ?thesis using Some Inr True by (simp add: clear_namespace_def)
    next
      case False
      have one: "snd (clear_namespace L ns now cm)
                   = cm\<lparr>redis_client := Some (snd (redis_delete ks r))\<rparr>"
        using Some Inr False by (simp add: clear_namespace_def case_prod_unfold)
      have "redis_keys L now' (ns @ '':*'') (snd (redis_delete ks r)) = Inr []"
        by (rule redis_keys_after_delete[OF re Inr assms])
      then show ?thesis
        unfolding one by (simp add: clear_namespace_def)
    qed
  qed
qed

subsection \<open>A composite key that was never set\<close>

lemma map_of_None_filter: "map_of xs k = None \<Longrightarrow> map_of (filter P xs) k = None"
  by (auto simp: map_of_eq_None_iff)

lemma map_of_None_drop: "map_of xs k = None \<Longrightarrow> map_of (drop n xs) k = None"
  by (auto simp: map_of_eq_None_iff dest: in_set_dropD)

lemma absent_setitem:
  assumes "map_of (items c) ck = None" and "k \<noteq> ck"
  shows "map_of (items (snd (cache_setitem now k v c))) ck = None"
proof -
  let ?xs = "filter (\<lambda>(k, v, expires). now < expires) (items c)"
  have a: "map_of ?xs ck = None" using assms(1) by (rule map_of_None_filter)
  have b: "map_of (evict m ?xs) ck = None" for m
    unfolding evict_def using a by (rule map_of_None_drop)
  show ?thesis
    using a b assms(2)
    by (simp add: cache_setitem_def expire_def Let_def map_of_without_snoc del: map_of_append)
qed

lemma absent_getitem:
  assumes "map_of (items c) ck = None"
  shows "map_of (items (snd (cache_getitem now k c))) ck = None"
  using assms
  by (auto simp: cache_getitem_def Let_def map_of_without_snoc
           simp del: map_of_append split: option.splits)

lemma absent_delitem:
  assumes "map_of (items c) ck = None"
  shows "map_of (items (snd (cache_delitem now k c))) ck = None"
  using assms
  by (auto simp: cache_delitem_def Let_def map_of_without split: option.splits)

lemma absent_setex:
  assumes "map_of (store r) ck = None" and "k \<noteq> ck"
  shows "map_of (store (snd (redis_setex now k n s r))) ck = None"
  using assms by (simp add: redis_setex_def map_of_without)

lemma absent_redis_delete:
  assumes "map_of (store r) ck = None"
  shows "map_of (store (snd (redis_delete ks r))) ck = None"
  using assms by (simp add: redis_delete_def map_of_None_filter)

lemma get_absent:
  assumes "generate_key L key ns = Inr ck" and "in_no_tier ck cm"
  shows "get L key ns t_in t_at cm = (Inr PyNone, cm)"
proof -
  have l: "\<not> cache_contains t_in ck (memory_cache cm)"
    using assms(2) by (simp add: in_no_tier_def cache_contains_def)
  have r: "redis_client cm = Some r \<Longrightarrow>
             redis_get t_at ck r = Inl RedisError \<or> redis_get t_at ck r = Inr None" for r
    using assms(2) by (simp add: in_no_tier_def redis_get_def)
  show ?thesis
  proof (cases "redis_client cm")
    case None
    then show ?thesis using l by (simp add: get_def assms(1))
  next
    case (Some r)
    from r[OF Some] show ?thesis
      using l Some by (auto simp: get_def assms(1))
  qed
qed

lemma get_redis_client: "redis_client (snd (get L key ns t_in t_at cm)) = redis_client cm"
  by (simp add: get_def case_prod_unfold split: option.splits sum.splits)

lemma get_memory_cache:
  "memory_cache (snd (get L key ns t_in t_at cm)) = memory_cache cm
   \<or> (\<exists>ck'. generate_key L key ns = Inr ck' \<and>
        (memory_cache (snd (get L key ns t_in t_at cm))
           = snd (cache_getitem t_at ck' (memory_cache cm))
         \<or> (\<exists>d. memory_cache (snd (get L key ns t_in t_at cm))
               = snd (cache_setitem t_at ck' d (memory_cache cm)))))"
  by (auto simp: get_def case_prod_unfold split: option.splits sum.splits)

lemma in_no_tier_get:
  assumes "in_no_tier ck cm"
  shows "in_no_tier ck (snd (get L key ns t_in t_at cm))"
proof (cases "generate_key L key ns = Inr ck")
  case True
  with assms show ?thesis by (simp add: get_absent)
next
  case False
  have l: "map_of (items (memory_cache cm)) ck = None"
    using assms by (simp add: in_no_tier_def)
  have "map_of (items (memory_cache (snd (get L key ns t_in t_at cm)))) ck = None"
    using get_memory_cache[of L key ns t_in t_at cm] l absent_getitem[OF l] absent_setitem[OF l] False
    by auto
  then show ?thesis
    using assms by (simp add: in_no_tier_def get_redis_client)
qed

lemma set_value_memory_cache:
  "memory_cache (snd (set_value L key v ns ttl_arg now cm)) = memory_cache cm
   \<or> (\<exists>ck'. generate_key L key ns = Inr ck' \<and>
         memory_cache (snd (set_value L key v ns ttl_arg now cm))
           = snd (cache_setitem now ck' v (memory_cache cm)))"
  by (auto simp: set_value_def Let_def case_prod_unfold split: option.splits sum.splits)

lemma set_value_redis_cases:
  "redis_client (snd (set_value L key v ns ttl_arg now cm)) = redis_client cm
   \<or> (\<exists>ck' r n s. generate_key L key ns = Inr ck' \<and> redis_client cm = Some r \<and>
         redis_client (snd (set_value L key v ns ttl_arg now cm))
           = Some (snd (redis_setex now ck' n s r)))"
  by (auto simp: set_value_def Let_def case_prod_unfold split: option.splits sum.splits)

lemma in_no_tier_set:
  assumes "in_no_tier ck cm" and "generate_key L key ns \<noteq> Inr ck"
  shows "in_no_tier ck (snd (set_value L key v ns ttl_arg now cm))"
proof -
  have l: "map_of (items (memory_cache cm)) ck = None"
    using assms by (simp add: in_no_tier_def)
  have l': "map_of (items (memory_cache (snd (set_value L key v ns ttl_arg now cm)))) ck = None"
    using set_value_memory_cache[of L key v ns ttl_arg now cm] l absent_setitem[OF l] assms(2)
    by auto
  have "case redis_client (snd (set_value L key v ns ttl_arg now cm)) of
          None \<Rightarrow> True | Some r \<Rightarrow> map_of (store r) ck = None"
    using set_value_redis_cases[of L key v ns ttl_arg now cm] assms
    by (auto simp: in_no_tier_def absent_setex split: option.splits)
  with l' show ?thesis by (simp add: in_no_tier_def)
qed

lemma delete_memory_cache:
  "memory_cache (snd (delete L key ns t_in t_at cm)) = memory_cache cm
   \<or> (\<exists>ck'. memory_cache (snd (delete L key ns t_in t_at cm))
        = snd (cache_delitem t_at ck' (memory_cache cm)))"
  by (auto simp: delete_def Let_def case_prod_unfold split: option.splits sum.splits)

lemma delete_redis_cases:
  "redis_client (snd (delete L key ns t_in t_at cm)) = redis_client cm
   \<or> (\<exists>ck' r. redis_client cm = Some r \<and>
         redis_client (snd (delete L key ns t_in t_at cm))
           = Some (snd (redis_delete [ck'] r)))"
  by (auto simp: delete_def Let_def case_prod_unfold split: option.splits sum.splits)

lemma in_no_tier_delete:
  assumes "in_no_tier ck cm"
  shows "in_no_tier ck (snd (delete L key ns t_in t_at cm))"
proof -
  have l: "map_of (items (memory_cache cm)) ck = None"
    using assms by (simp add: in_no_tier_def)
  have l': "map_of (items (memory_cache (snd (delete L key ns t_in t_at cm)))) ck = None"
    using delete_memory_cache[of L key ns t_in t_at cm] l absent_delitem[OF l] by auto
  have "case redis_client (snd (delete L key ns t_in t_at cm)) of
          None \<Rightarrow> True | Some r \<Rightarrow> map_of (store r) ck = None"
    using delete_redis_cases[of L key ns t_in t_at cm] assms
    by (auto simp: in_no_tier_def absent_redis_delete split: option.splits)
  with l' show ?thesis by (simp add: in_no_tier_def)
qed

lemma in_no_tier_clear:
  assumes "in_no_tier ck cm"
  shows "in_no_tier ck (snd (clear_namespace L ns now cm))"
  using assms
  by (auto simp: in_no_tier_def clear_namespace_def Let_def case_prod_unfold absent_redis_delete
           split: option.splits sum.splits)

lemma in_no_tier_step:
  assumes "in_no_tier ck cm" and "\<not> sets_key L ck c"
  shows "in_no_tier ck (cm_step L c cm)"
  using assms
  by (cases c) (simp_all add: in_no_tier_get in_no_tier_set in_no_tier_delete in_no_tier_clear)

lemma in_no_tier_run:
  assumes "in_no_tier ck cm" and "\<forall>c \<in> set cs. \<not> sets_key L ck c"
  shows "in_no_tier ck (cm_run L cs cm)"
  using assms by (induction cs arbitrary: cm) (simp_all add: in_no_tier_step)

lemma in_no_tier_init:
  "in_no_tier ck (CacheManager_init d client) \<longleftrightarrow>
     (case client of None \<Rightarrow> True | Some r \<Rightarrow> map_of (store r) ck = None)"
  by (simp add: in_no_tier_def CacheManager_init_def)

lemma never_set_absent:
  assumes "generate_key L key ns = Inr ck"
      and "case client of None \<Rightarrow> True | Some r \<Rightarrow> map_of (store r) ck = None"
      and "\<forall>c \<in> set cs. \<not> sets_key L ck c"
  shows "get L key ns t_in t_at (cm_run L cs (CacheManager_init d client))
           = (Inr PyNone, cm_run L cs (CacheManager_init d client))"
proof -
  have "in_no_tier ck (CacheManager_init d client :: 'a CacheManager)"
    using assms(2) by (simp add: in_no_tier_init)
  then have "in_no_tier ck (cm_run L cs (CacheManager_init d client))"
    using assms(3) by (rule in_no_tier_run)
  then show ?thesis
    by (rule get_absent[OF assms(1)])
qed

lemma round_trip_local:
  assumes "0 < maxsize (memory_cache cm)" and "generate_key L key ns = Inr ck"
      and "t1 < t + ttl (memory_cache cm)" and "t2 < t + ttl (memory_cache cm)"
  shows "fst (get L key ns t1 t2 (snd (set_value L key v ns ttl_arg t cm))) = Inr v"
proof -
  let ?cm = "snd (set_value L key v ns ttl_arg t cm)"
  have mc: "memory_cache ?cm = snd (cache_setitem t ck v (memory_cache cm))"
    by (rule set_value_ok(2)[OF assms(1,2)])
  have m: "0 < maxsize (memory_cache ?cm)"
    using assms(1) by (simp add: mc cache_setitem_ok)
  have l: "local_value t1 ck (memory_cache ?cm) = Some v"
          "local_value t2 ck (memory_cache ?cm) = Some v"
    using assms by (simp_all add: mc cache_setitem_local)
  show ?thesis
    by (simp add: get_result[OF m assms(2)] l)
qed

subsection \<open>Round trip and absence\<close>

text \<open>
  Claim C5. On a cache manager whose local tier admits an item (\<open>maxsize > 0\<close>; the
  constructor makes it 1000) and for a key that UTF-8 can encode (its composite key
  \<open>ck\<close> exists), \<^verbatim>\<open>set(key, v, ns)\<close> at time \<open>t\<close> followed by
  \<^verbatim>\<open>get(key, ns)\<close> with both clock readings within the local tier's TTL returns
  \<open>v\<close>, whatever the distributed tier does. And on a new cache manager whose Redis
  store (if any) does not hold the composite key, after any calls none of which is a
  \<^verbatim>\<open>set\<close> on that composite key, \<^verbatim>\<open>get\<close> returns \<^verbatim>\<open>None\<close>. Keys are told
  apart by their composite key \<open>namespace:hash(key)\<close>, as in the code.
\<close>

theorem set_get_roundtrip:
  fixes L :: "('v, 'x) library_scheme" and cm :: "'v CacheManager" and cs :: "'v cm_call list"
  shows "(0 < maxsize (memory_cache cm) \<and> generate_key L key ns = Inr ck
            \<and> t1 < t + ttl (memory_cache cm) \<and> t2 < t + ttl (memory_cache cm) \<longrightarrow>
            fst (get L key ns t1 t2 (snd (set_value L key v ns ttl_arg t cm))) = Inr v)
       \<and> (generate_key L key ns = Inr ck
            \<and> (case client of None \<Rightarrow> True | Some r \<Rightarrow> map_of (store r) ck = None)
            \<and> (\<forall>c \<in> set cs. \<not> sets_key L ck c) \<longrightarrow>
            fst (get L key ns t1 t2 (cm_run L cs (CacheManager_init d client))) = Inr PyNone)"
proof (intro conjI impI)
  assume "0 < maxsize (memory_cache cm) \<and> generate_key L key ns = Inr ck
            \<and> t1 < t + ttl (memory_cache cm) \<and> t2 < t + ttl (memory_cache cm)"
  then show "fst (get L key ns t1 t2 (snd (set_value L key v ns ttl_arg t cm))) = Inr v"
    by (intro round_trip_local) simp_all
next
  assume a: "generate_key L key ns = Inr ck
            \<and> (case client of None \<Rightarrow> True | Some r \<Rightarrow> map_of (store r) ck = None)
            \<and> (\<forall>c \<in> set cs. \<not> sets_key L ck c)"
  then have k: "generate_key L key ns = Inr ck"
    and b: "case client of None \<Rightarrow> True | Some r \<Rightarrow> map_of (store r) ck = None"
    and c: "\<forall>c \<in> set cs. \<not> sets_key L ck c"
    by blast+
  have "get L key ns t1 t2 (cm_run L cs (CacheManager_init d client))
           = (Inr PyNone, cm_run L cs (CacheManager_init d client))"
    by (rule never_set_absent[OF k b c])
  then show "fst (get L key ns t1 t2 (cm_run L cs (CacheManager_init d client))) = Inr PyNone"
    by simp
qed

theorem set_get_roundtrip_witness:
  "0 < maxsize (memory_cache (CacheManager_init 3600 None :: nat CacheManager))
   \<and> generate_key example_library [107] ''ns'' = Inr ''ns:6b''
   \<and> (1::real) < 0 + ttl (memory_cache (CacheManager_init 3600 None :: nat CacheManager))
   \<and> (2::real) < 0 + ttl (memory_cache (CacheManager_init 3600 None :: nat CacheManager))
   \<and> fst (get example_library [107] ''ns'' 1 2
            (snd (set_value example_library [107] (PyObj 7) ''ns'' None 0
                    (CacheManager_init 3600 None)))) = Inr (PyObj 7)
   \<and> \<not> sets_key example_library ''ns:6b'' (Set [97] (PyObj 1) ''ns'' None 0)
   \<and> \<not> sets_key example_library ''ns:6b'' (Delete [107] ''ns'' 1 1)
   \<and> fst (get example_library [107] ''ns'' 1 2
            (cm_run example_library [Set [97] (PyObj 1) ''ns'' None 0, Delete [107] ''ns'' 1 1]
               (CacheManager_init 3600 None))) = Inr PyNone"
  using set_get_roundtrip
          [where L = example_library and cm = "CacheManager_init 3600 None" and t = 0
             and ?t1.0 = 1 and ?t2.0 = 2 and ck = "''ns:6b''"
             and key = "[107]" and ns = "''ns''" and v = "PyObj 7" and ttl_arg = None
             and client = None and d = 3600
             and cs = "[Set [97] (PyObj 1) ''ns'' None 0, Delete [107] ''ns'' 1 1]"]
  by (simp add: CacheManager_init_def generate_key_encode utf8_bytes_def example_library_def)

subsection \<open>An unreachable Redis\<close>




subsection \<open>Clearing a namespace twice\<close>

lemma clear_namespace_nothing:
  assumes "case redis_client cm of
             None \<Rightarrow> True
           | Some r \<Rightarrow> \<forall>e \<in> set (store r). \<not> glob_match L (ns @ '':*'') (fst e)"
  shows "clear_namespace L ns now cm = (Inr (), cm)"
proof (cases "redis_client cm")
  case None
  then show ?thesis by (simp add: clear_namespace_def)
next
  case (Some r)
  then have "\<forall>e \<in> set (store r). \<not> glob_match L (ns @ '':*'') (fst e)"
    using assms by simp
  then have "filter (\<lambda>(k, s, expires). now < expires \<and> glob_match L (ns @ '':*'') k) (store r) = []"
    unfolding filter_empty_conv by fastforce
  then have "redis_keys L now (ns @ '':*'') r = Inl RedisError
           \<or> redis_keys L now (ns @ '':*'') r = Inr []"
    by (simp add: redis_keys_def)
  then show ?thesis using Some by (auto simp: clear_namespace_def)
qed

text \<open>
  Claim C8. \<^verbatim>\<open>clear_namespace(ns)\<close> never raises. A second call, made no earlier
  than the first, returns without error and changes nothing: after two calls both tiers
  are in the state the first call left. On a namespace without keys in Redis (or
  without a Redis client) a call returns without error and changes nothing.
\<close>

theorem clear_namespace_idempotent:
  fixes L :: "('v, 'x) library_scheme" and cm :: "'v CacheManager"
  shows "fst (clear_namespace L ns now cm) = Inr ()
       \<and> (now \<le> now' \<longrightarrow>
            clear_namespace L ns now' (snd (clear_namespace L ns now cm))
              = (Inr (), snd (clear_namespace L ns now cm)))
       \<and> ((case redis_client cm of
              None \<Rightarrow> True
            | Some r \<Rightarrow> \<forall>e \<in> set (store r). \<not> glob_match L (ns @ '':*'') (fst e)) \<longrightarrow>
            clear_namespace L ns now cm = (Inr (), cm))"
proof (intro conjI impI)
  show "fst (clear_namespace L ns now cm) = Inr ()"
    by (rule clear_namespace_ok)
next
  assume "now \<le> now'"
  then show "clear_namespace L ns now' (snd (clear_namespace L ns now cm))
              = (Inr (), snd (clear_namespace L ns now cm))"
    by (rule clear_namespace_again)
next
  assume "case redis_client cm of
              None \<Rightarrow> True
            | Some r \<Rightarrow> \<forall>e \<in> set (store r). \<not> glob_match L (ns @ '':*'') (fst e)"
  then show "clear_namespace L ns now cm = (Inr (), cm)"
    by (rule clear_namespace_nothing)
qed

theorem clear_namespace_idempotent_witness:
  "(0::real) \<le> 1
   \<and> redis_client (snd (clear_namespace example_library ''ns'' 0
                          (CacheManager_init 3600 (Some example_redis) :: nat CacheManager)))
       = Some \<lparr>reachable = True, store = [(''other:b'', ''1'', 100)]\<rparr>
   \<and> clear_namespace example_library ''ns'' 1
        (snd (clear_namespace example_library ''ns'' 0
                (CacheManager_init 3600 (Some example_redis) :: nat CacheManager)))
       = (Inr (), snd (clear_namespace example_library ''ns'' 0
                         (CacheManager_init 3600 (Some example_redis))))
   \<and> \<not> glob_match example_library (''empty'' @ '':*'') ''ns:a''
   \<and> \<not> glob_match example_library (''empty'' @ '':*'') ''other:b''
   \<and> clear_namespace example_library ''empty'' 0
        (CacheManager_init 3600 (Some example_redis) :: nat CacheManager)
       = (Inr (), CacheManager_init 3600 (Some example_redis))"
proof -
  have one: "redis_client (snd (clear_namespace example_library ''ns'' 0
                          (CacheManager_init 3600 (Some example_redis) :: nat CacheManager)))
       = Some \<lparr>reachable = True, store = [(''other:b'', ''1'', 100)]\<rparr>"
    by (simp add: clear_namespace_def redis_keys_def redis_delete_def example_redis_def
          example_library_def CacheManager_init_def Let_def)
  have none: "\<forall>e \<in> set (store example_redis). \<not> glob_match example_library (''empty'' @ '':*'') (fst e)"
    by (simp add: example_redis_def example_library_def)
  show ?thesis
    using one none
      clear_namespace_idempotent
        [where L = example_library and ns = "''ns''" and now = 0 and now' = 1
           and cm = "CacheManager_init 3600 (Some example_redis) :: nat CacheManager"]
      clear_namespace_idempotent
        [where L = example_library and ns = "''empty''" and now = 0 and now' = 1
           and cm = "CacheManager_init 3600 (Some example_redis) :: nat CacheManager"]
    by (simp add: CacheManager_init_def example_redis_def example_library_def)
qed

subsection \<open>A cached \<^verbatim>\<open>None\<close>\<close>




subsection \<open>The capacity of the local tier never changes\<close>

lemma cm_step_maxsize:
  "maxsize (memory_cache (cm_step L c cm)) = maxsize (memory_cache cm)"
proof (cases c)
  case (Get key ns t_in t_at)
  have g: "maxsize (snd (cache_getitem now k mc)) = maxsize mc" for now k and mc :: "'a TTLCache"
    by (simp add: cache_getitem_config)
  have s: "maxsize (snd (cache_setitem now k d mc)) = maxsize mc" for now k d and mc :: "'a TTLCache"
    by (simp add: cache_setitem_def expire_def Let_def)
  show ?thesis
    using get_memory_cache[of L key ns t_in t_at cm] g s unfolding Get by auto
next
  case (Set key v ns ttl_arg now)
  have s: "maxsize (snd (cache_setitem now k d mc)) = maxsize mc" for k d and mc :: "'a TTLCache"
    by (simp add: cache_setitem_def expire_def Let_def)
  show ?thesis
    using set_value_memory_cache[of L key v ns ttl_arg now cm] s unfolding Set by auto
next
  case (Delete key ns t_in t_at)
  have d: "maxsize (snd (cache_delitem now k mc)) = maxsize mc" for now k and mc :: "'a TTLCache"
    by (simp add: cache_delitem_def Let_def split: option.splits)
  show ?thesis
    using delete_memory_cache[of L key ns t_in t_at cm] d unfolding Delete by auto
next
  case (ClearNamespace ns now)
  show ?thesis unfolding ClearNamespace
    by (simp add: clear_namespace_def Let_def case_prod_unfold split: option.splits sum.splits)
qed

lemma cm_run_maxsize:
  "maxsize (memory_cache (cm_run L cs (CacheManager_init d client))) = 1000"
proof -
  have "maxsize (memory_cache (cm_run L cs cm)) = maxsize (memory_cache cm)" for cm :: "'a CacheManager"
    by (induction cs arbitrary: cm) (simp_all add: cm_step_maxsize)
  then show ?thesis by (simp add: CacheManager_init_def)
qed

end
